theory Spec2Isabelle
  imports Complex_Main "HOL-Library.Word" "HOL-Library.FSet" "HOL-Library.List_Lexorder"
begin

section \<open>Python values\<close>

text \<open>
  A Python \<open>str\<close> is a sequence of Unicode code points, and \<open>len\<close>, \<open>==\<close> and the
  JSON encoder all work on code points: a \<open>pystr\<close> is the list of them. Text that is
  ASCII by construction (what \<open>json.dumps\<close> returns, what \<open>hexdigest\<close> returns) is an
  Isabelle \<open>string\<close>; \<open>py\<close> reads such a text as a Python \<open>str\<close>.
\<close>

type_synonym pystr = "nat list"

abbreviation (input) py :: "string \<Rightarrow> pystr" where
  "py s \<equiv> map of_char s"

text \<open>
  The values that reach the program from its callers and from a decoded JSON document:
  \<open>None\<close>, \<open>int\<close>, \<open>float\<close>, \<open>str\<close>, \<open>list\<close> and \<open>dict\<close> with \<open>str\<close> keys (a
  dictionary is the list of its items in insertion order, keys distinct). A finite
  \<open>float\<close> is the rational number it denotes; \<open>nan\<close> and the infinities are not
  modelled, and neither is \<open>bool\<close>.
\<close>

datatype pyval =
    PNone
  | PInt int
  | PFloat rat
  | PStr pystr
  | PList "pyval list"
  | PDict "(pystr \<times> pyval) list"

datatype pynum = NInt int | NFloat rat

datatype exn = ValueError | KeyError | TypeError | IndexError

fun truthy :: "pyval \<Rightarrow> bool" where
  "truthy PNone = False"
| "truthy (PInt i) = (i \<noteq> 0)"
| "truthy (PFloat r) = (r \<noteq> 0)"
| "truthy (PStr s) = (s \<noteq> [])"
| "truthy (PList xs) = (xs \<noteq> [])"
| "truthy (PDict kvs) = (kvs \<noteq> [])"

text \<open>\<open>isinstance(x, (int, float))\<close>, with the number when it holds.\<close>

fun as_number :: "pyval \<Rightarrow> pynum option" where
  "as_number (PInt i) = Some (NInt i)"
| "as_number (PFloat r) = Some (NFloat r)"
| "as_number _ = None"

fun number_val :: "pynum \<Rightarrow> pyval" where
  "number_val (NInt i) = PInt i"
| "number_val (NFloat r) = PFloat r"

text \<open>\<open>x <= 0\<close> on a number.\<close>

fun le_zero :: "pynum \<Rightarrow> bool" where
  "le_zero (NInt i) = (i \<le> 0)"
| "le_zero (NFloat r) = (r \<le> 0)"

text \<open>
  \<open>not x or not isinstance(x, str)\<close> is false exactly on a non-empty \<open>str\<close>;
  \<open>nonempty_str\<close> returns that string.
\<close>

fun nonempty_str :: "pyval \<Rightarrow> pystr option" where
  "nonempty_str (PStr s) = (if s = [] then None else Some s)"
| "nonempty_str _ = None"

text \<open>\<open>key in d\<close> and \<open>d[key]\<close> on a dictionary.\<close>

definition has_key :: "(pystr \<times> pyval) list \<Rightarrow> pystr \<Rightarrow> bool" where
  "has_key kvs k = (k \<in> fst ` set kvs)"

definition getitem :: "(pystr \<times> pyval) list \<Rightarrow> pystr \<Rightarrow> exn + pyval" where
  "getitem kvs k = (case map_of kvs k of None \<Rightarrow> Inl KeyError | Some v \<Rightarrow> Inr v)"

text \<open>
  \<open>for x in v\<close>: the elements of a list, the keys of a dictionary, the one-character
  strings of a string; anything else is not iterable.
\<close>

fun py_iter :: "pyval \<Rightarrow> exn + pyval list" where
  "py_iter (PList xs) = Inr xs"
| "py_iter (PDict kvs) = Inr (map (\<lambda>kv. PStr (fst kv)) kvs)"
| "py_iter (PStr s) = Inr (map (\<lambda>c. PStr [c]) s)"
| "py_iter _ = Inl TypeError"

text \<open>A loop body that may raise, run over a list: the first exception ends the loop.\<close>

fun map_exn :: "('a \<Rightarrow> exn + 'b) \<Rightarrow> 'a list \<Rightarrow> exn + 'b list" where
  "map_exn f [] = Inr []"
| "map_exn f (x # xs) =
     (case f x of
        Inl e \<Rightarrow> Inl e
      | Inr y \<Rightarrow> (case map_exn f xs of Inl e \<Rightarrow> Inl e | Inr ys \<Rightarrow> Inr (y # ys)))"

section \<open>The library functions the program calls\<close>

text \<open>
  \<open>hashlib.sha256\<close> and \<open>float.__repr__\<close> are not code of the repository: they are
  parameters. \<open>sha256 L t\<close> is the 256-bit digest of the bytes of the ASCII text \<open>t\<close>,
  \<open>float_repr L r\<close> the text \<open>json\<close> writes for the float \<open>r\<close>.
\<close>

record lib =
  sha256 :: "string \<Rightarrow> 256 word"
  float_repr :: "rat \<Rightarrow> string"

subsection \<open>Hexadecimal and decimal digits\<close>

definition hexdigit :: "nat \<Rightarrow> char" where
  "hexdigit d = ''0123456789abcdef'' ! (d mod 16)"

fun hex_fixed :: "nat \<Rightarrow> nat \<Rightarrow> string" where
  "hex_fixed 0 n = []"
| "hex_fixed (Suc k) n = hex_fixed k (n div 16) @ [hexdigit (n mod 16)]"

text \<open>\<open>hexdigest()\<close>: the 32 bytes of the digest, two lowercase hex digits each.\<close>

definition hexdigest :: "256 word \<Rightarrow> string" where
  "hexdigest w = hex_fixed 64 (unat w)"

definition digit_char :: "nat \<Rightarrow> char" where
  "digit_char d = ''0123456789'' ! (d mod 10)"

function decimal :: "nat \<Rightarrow> string" where
  "decimal n = (if n < 10 then [digit_char n] else decimal (n div 10) @ [digit_char (n mod 10)])"
  by pat_completeness auto
termination
  by (relation "measure id") auto

declare decimal.simps [simp del]

definition int_repr :: "int \<Rightarrow> string" where
  "int_repr i = (if i < 0 then CHR ''-'' # decimal (nat (- i)) else decimal (nat i))"

subsection \<open>\<open>json.dumps\<close>\<close>

text \<open>
  The string encoder of \<open>json\<close> with \<open>ensure_ascii\<close> (the default): a backslash and a
  double quote are escaped, the printable ASCII characters stand for themselves, five
  control characters have a letter, every other code point below \<open>0x10000\<close> is
  \<open>\uXXXX\<close>, and a code point from \<open>0x10000\<close> is written as its surrogate pair.
\<close>

abbreviation (input) DQ :: char where "DQ \<equiv> CHR 0x22"
abbreviation (input) BS :: char where "BS \<equiv> CHR 0x5C"

definition escape_char :: "nat \<Rightarrow> string" where
  "escape_char c =
     (if c = 0x5C then [BS, BS]
      else if c = 0x22 then [BS, DQ]
      else if 0x20 \<le> c \<and> c \<le> 0x7E then [char_of c]
      else if c = 0x08 then [BS, CHR ''b'']
      else if c = 0x0C then [BS, CHR ''f'']
      else if c = 0x0A then [BS, CHR ''n'']
      else if c = 0x0D then [BS, CHR ''r'']
      else if c = 0x09 then [BS, CHR ''t'']
      else if c < 0x10000 then BS # CHR ''u'' # hex_fixed 4 c
      else (let n = c - 0x10000;
                s1 = 0xD800 + (n div 0x400) mod 0x400;
                s2 = 0xDC00 + n mod 0x400
            in BS # CHR ''u'' # hex_fixed 4 s1 @ BS # CHR ''u'' # hex_fixed 4 s2))"

definition encode_basestring_ascii :: "pystr \<Rightarrow> string" where
  "encode_basestring_ascii s = DQ # concat (map escape_char s) @ [DQ]"

record dump_cfg =
  indent :: "nat option"
  item_separator :: string
  key_separator :: string
  sort_keys :: bool

fun join :: "string \<Rightarrow> string list \<Rightarrow> string" where
  "join sep [] = []"
| "join sep [x] = x"
| "join sep (x # y # ys) = x @ sep @ join sep (y # ys)"

definition newline_indent :: "dump_cfg \<Rightarrow> nat \<Rightarrow> string" where
  "newline_indent cfg lvl =
     (case indent cfg of None \<Rightarrow> [] | Some n \<Rightarrow> CHR 0x0A # replicate (n * lvl) CHR '' '')"

text \<open>
  The encoder at nesting level \<open>lvl\<close>: an empty list or dictionary is \<open>[]\<close> or \<open>{}\<close>;
  otherwise the items are separated by the item separator, each on its own indented
  line when an indent is given, and the items of a dictionary are sorted by key when
  \<open>sort_keys\<close> is set.
\<close>

function iterencode :: "lib \<Rightarrow> dump_cfg \<Rightarrow> nat \<Rightarrow> pyval \<Rightarrow> string" where
  "iterencode L cfg lvl PNone = ''null''"
| "iterencode L cfg lvl (PInt i) = int_repr i"
| "iterencode L cfg lvl (PFloat r) = float_repr L r"
| "iterencode L cfg lvl (PStr s) = encode_basestring_ascii s"
| "iterencode L cfg lvl (PList xs) =
     (if xs = [] then ''[]''
      else ''['' @ newline_indent cfg (Suc lvl)
           @ join (item_separator cfg @ newline_indent cfg (Suc lvl))
               (map (iterencode L cfg (Suc lvl)) xs)
           @ newline_indent cfg lvl @ '']'')"
| "iterencode L cfg lvl (PDict kvs) =
     (if kvs = [] then ''{}''
      else ''{'' @ newline_indent cfg (Suc lvl)
           @ join (item_separator cfg @ newline_indent cfg (Suc lvl))
               (map (\<lambda>kv. encode_basestring_ascii (fst kv) @ key_separator cfg
                            @ iterencode L cfg (Suc lvl) (snd kv))
                    (if sort_keys cfg then sort_key fst kvs else kvs))
           @ newline_indent cfg lvl @ ''}'')"
  by pat_completeness auto

termination
proof (relation "measure (\<lambda>(L, cfg, lvl, j). size j)")
  fix kvs :: "(pystr \<times> pyval) list" and kv :: "pystr \<times> pyval"
    and cfg :: dump_cfg and L :: lib and lvl :: nat
  assume "kv \<in> set (if sort_keys cfg then sort_key fst kvs else kvs)"
  then have "kv \<in> set kvs"
    by (simp split: if_splits)
  then have "size (snd kv) \<le> size_list (size_prod (\<lambda>_. 0) size) kvs"
    by (rule size_list_estimation') (cases kv, simp)
  then show "((L, cfg, Suc lvl, snd kv), L, cfg, lvl, PDict kvs)
             \<in> measure (\<lambda>(L, cfg, lvl, j). size j)"
    by simp
qed (auto simp: less_Suc_eq_le size_list_estimation')

definition dumps :: "lib \<Rightarrow> dump_cfg \<Rightarrow> pyval \<Rightarrow> string" where
  "dumps L cfg v = iterencode L cfg 0 v"

section \<open>Vote\<close>

record Vote =
  voter_id :: pystr
  candidate :: pystr
  timestamp :: pynum

text \<open>
  The constructor with \<open>__post_init__\<close>: the three checks in the source's order, each
  raising \<open>ValueError\<close>.
\<close>

definition Vote_init :: "pyval \<Rightarrow> pyval \<Rightarrow> pyval \<Rightarrow> exn + Vote" where
  "Vote_init v c t =
     (case nonempty_str v of
        None \<Rightarrow> Inl ValueError
      | Some vid \<Rightarrow>
          (case nonempty_str c of
             None \<Rightarrow> Inl ValueError
           | Some cand \<Rightarrow>
               (case as_number t of
                  None \<Rightarrow> Inl ValueError
                | Some ts \<Rightarrow>
                    if le_zero ts then Inl ValueError
                    else Inr \<lparr>voter_id = vid, candidate = cand, timestamp = ts\<rparr>)))"

definition Vote_to_dict :: "Vote \<Rightarrow> pyval" where
  "Vote_to_dict v =
     PDict [(py ''voter_id'', PStr (voter_id v)),
            (py ''candidate'', PStr (candidate v)),
            (py ''timestamp'', number_val (Vote.timestamp v))]"

text \<open>
  \<open>from_dict\<close>: anything but a dictionary raises (the key test or the subscript
  does), a missing key is \<open>KeyError\<close>, and the constructor validates the rest.
\<close>

definition Vote_from_dict :: "pyval \<Rightarrow> exn + Vote" where
  "Vote_from_dict data =
     (case data of
        PDict kvs \<Rightarrow>
          if \<not> (\<forall>key \<in> set [py ''voter_id'', py ''candidate'', py ''timestamp'']. has_key kvs key)
          then Inl KeyError
          else (case (getitem kvs (py ''voter_id''), getitem kvs (py ''candidate''),
                      getitem kvs (py ''timestamp'')) of
                  (Inr v, Inr c, Inr t) \<Rightarrow> Vote_init v c t
                | _ \<Rightarrow> Inl KeyError)
      | _ \<Rightarrow> Inl TypeError)"

text \<open>\<open>create_vote\<close>: \<open>now\<close> is the float \<open>time.time()\<close> returns.\<close>

definition create_vote :: "rat \<Rightarrow> pyval \<Rightarrow> pyval \<Rightarrow> exn + Vote" where
  "create_vote now v c = Vote_init v c (PFloat now)"

section \<open>VoterManager\<close>

record VoterManager =
  registered_voters :: "pystr fset"
  voted_voters :: "pystr fset"

definition VoterManager_init :: VoterManager where
  "VoterManager_init = \<lparr>registered_voters = {||}, voted_voters = {||}\<rparr>"

text \<open>
  \<open>register_voter\<close> of the manager: \<open>ValueError\<close> on an invalid id, otherwise the
  returned boolean and the manager after the call.
\<close>

definition vm_register_voter :: "pyval \<Rightarrow> VoterManager \<Rightarrow> exn + (bool \<times> VoterManager)" where
  "vm_register_voter v vm =
     (case nonempty_str v of
        None \<Rightarrow> Inl ValueError
      | Some vid \<Rightarrow>
          if vid |\<in>| registered_voters vm then Inr (False, vm)
          else Inr (True, vm\<lparr>registered_voters := finsert vid (registered_voters vm)\<rparr>))"

definition is_registered :: "VoterManager \<Rightarrow> pyval \<Rightarrow> bool" where
  "is_registered vm v =
     (case nonempty_str v of None \<Rightarrow> False | Some vid \<Rightarrow> vid |\<in>| registered_voters vm)"

definition has_voted :: "VoterManager \<Rightarrow> pyval \<Rightarrow> bool" where
  "has_voted vm v =
     (case nonempty_str v of None \<Rightarrow> False | Some vid \<Rightarrow> vid |\<in>| voted_voters vm)"

definition mark_as_voted :: "pyval \<Rightarrow> VoterManager \<Rightarrow> exn + VoterManager" where
  "mark_as_voted v vm =
     (case nonempty_str v of
        None \<Rightarrow> Inl ValueError
      | Some vid \<Rightarrow>
          if vid |\<notin>| registered_voters vm then Inl ValueError
          else Inr (vm\<lparr>voted_voters := finsert vid (voted_voters vm)\<rparr>))"

definition get_registered_voters :: "VoterManager \<Rightarrow> pystr list" where
  "get_registered_voters vm = sorted_list_of_fset (registered_voters vm)"

definition get_voted_voters :: "VoterManager \<Rightarrow> pystr list" where
  "get_voted_voters vm = sorted_list_of_fset (voted_voters vm)"

text \<open>
  \<open>list(s)\<close> on a set gives its elements in the order of the set's hash table, which
  depends on the hash seed of the process and on the history of the set, not only on
  its elements: the order is an argument \<open>order\<close> of \<open>to_dict\<close>.
\<close>

definition VoterManager_to_dict :: "(pystr fset \<Rightarrow> pystr list) \<Rightarrow> VoterManager \<Rightarrow> pyval" where
  "VoterManager_to_dict order vm =
     PDict [(py ''registered_voters'', PList (map PStr (order (registered_voters vm)))),
            (py ''voted_voters'', PList (map PStr (order (voted_voters vm))))]"

text \<open>The two loops of \<open>from_dict\<close>, adding the ids to the sets one by one.\<close>

fun add_registered :: "pyval list \<Rightarrow> VoterManager \<Rightarrow> exn + VoterManager" where
  "add_registered [] vm = Inr vm"
| "add_registered (x # xs) vm =
     (case nonempty_str x of
        None \<Rightarrow> Inl ValueError
      | Some vid \<Rightarrow> add_registered xs (vm\<lparr>registered_voters := finsert vid (registered_voters vm)\<rparr>))"

fun add_voted :: "pyval list \<Rightarrow> VoterManager \<Rightarrow> exn + VoterManager" where
  "add_voted [] vm = Inr vm"
| "add_voted (x # xs) vm =
     (case nonempty_str x of
        None \<Rightarrow> Inl ValueError
      | Some vid \<Rightarrow>
          if vid |\<notin>| registered_voters vm then Inl ValueError
          else add_voted xs (vm\<lparr>voted_voters := finsert vid (voted_voters vm)\<rparr>))"

definition VoterManager_from_dict :: "pyval \<Rightarrow> exn + VoterManager" where
  "VoterManager_from_dict data =
     (case data of
        PDict kvs \<Rightarrow>
          if \<not> (\<forall>key \<in> set [py ''registered_voters'', py ''voted_voters'']. has_key kvs key)
          then Inl KeyError
          else (case (getitem kvs (py ''registered_voters''), getitem kvs (py ''voted_voters'')) of
                  (Inr registered, Inr voted) \<Rightarrow>
                    (case registered of
                       PList rs \<Rightarrow>
                         (case add_registered rs VoterManager_init of
                            Inl e \<Rightarrow> Inl e
                          | Inr vm \<Rightarrow>
                              (case voted of
                                 PList vs \<Rightarrow> add_voted vs vm
                               | _ \<Rightarrow> Inl ValueError))
                     | _ \<Rightarrow> Inl ValueError)
                | _ \<Rightarrow> Inl KeyError)
      | _ \<Rightarrow> Inl TypeError)"

section \<open>Block\<close>

text \<open>
  The dataclass \<open>Block\<close>. The constructor checks the types of the first four fields;
  the stored hash is annotated \<open>str\<close> but never checked, so it is any value.
\<close>

record Block =
  index :: int
  timestamp :: pynum
  votes :: "Vote list"
  previous_hash :: pystr
  hash :: pyval

definition block_data :: "Block \<Rightarrow> pyval" where
  "block_data b =
     PDict [(py ''index'', PInt (index b)),
            (py ''timestamp'', number_val (Block.timestamp b)),
            (py ''votes'', PList (map Vote_to_dict (votes b))),
            (py ''previous_hash'', PStr (previous_hash b))]"

text \<open>\<open>sort_keys=True, separators=(',', ':')\<close>.\<close>

definition canonical :: dump_cfg where
  "canonical = \<lparr>indent = None, item_separator = '','', key_separator = '':'', sort_keys = True\<rparr>"

definition block_string :: "lib \<Rightarrow> Block \<Rightarrow> string" where
  "block_string L b = dumps L canonical (block_data b)"

definition calculate_hash :: "lib \<Rightarrow> Block \<Rightarrow> pystr" where
  "calculate_hash L b = py (hexdigest (sha256 L (block_string L b)))"

text \<open>
  The constructor with \<open>__post_init__\<close>. The votes are a list of \<open>Vote\<close> objects at
  every call in the program, so the two checks on them always pass. A hash that is
  not given (the default \<open>""\<close>, or anything false) is computed; any other value is
  kept as it is, a string or not: the constructor does not check it.
\<close>

definition Block_init :: "lib \<Rightarrow> pyval \<Rightarrow> pyval \<Rightarrow> Vote list \<Rightarrow> pyval \<Rightarrow> pyval \<Rightarrow> exn + Block" where
  "Block_init L i t vs p h =
     (case i of
        PInt idx \<Rightarrow>
          if idx < 0 then Inl ValueError
          else (case as_number t of
                  None \<Rightarrow> Inl ValueError
                | Some ts \<Rightarrow>
                    if le_zero ts then Inl ValueError
                    else (case p of
                            PStr ph \<Rightarrow>
                              (let b = \<lparr>index = idx, timestamp = ts, votes = vs,
                                        previous_hash = ph, hash = h\<rparr>
                               in if \<not> truthy (hash b)
                                  then Inr (b\<lparr>hash := PStr (calculate_hash L b)\<rparr>)
                                  else Inr b)
                          | _ \<Rightarrow> Inl ValueError))
      | _ \<Rightarrow> Inl ValueError)"

definition Block_to_dict :: "Block \<Rightarrow> pyval" where
  "Block_to_dict b =
     PDict [(py ''index'', PInt (index b)),
            (py ''timestamp'', number_val (Block.timestamp b)),
            (py ''votes'', PList (map Vote_to_dict (votes b))),
            (py ''previous_hash'', PStr (previous_hash b)),
            (py ''hash'', hash b)]"

definition Block_from_dict :: "lib \<Rightarrow> pyval \<Rightarrow> exn + Block" where
  "Block_from_dict L data =
     (case data of
        PDict kvs \<Rightarrow>
          if \<not> (\<forall>key \<in> set [py ''index'', py ''timestamp'', py ''votes'',
                              py ''previous_hash'', py ''hash'']. has_key kvs key)
          then Inl KeyError
          else (case (getitem kvs (py ''votes''), getitem kvs (py ''index''),
                      getitem kvs (py ''timestamp''), getitem kvs (py ''previous_hash''),
                      getitem kvs (py ''hash'')) of
                  (Inr vd, Inr i, Inr t, Inr p, Inr h) \<Rightarrow>
                    (case py_iter vd of
                       Inl e \<Rightarrow> Inl e
                     | Inr items \<Rightarrow>
                         (case map_exn Vote_from_dict items of
                            Inl e \<Rightarrow> Inl e
                          | Inr vs \<Rightarrow> Block_init L i t vs p h))
                | _ \<Rightarrow> Inl KeyError)
      | _ \<Rightarrow> Inl TypeError)"

text \<open>
  \<open>create_block\<close>: \<open>now\<close> is the float \<open>time.time()\<close> returns; no hash is given. The
  previous hash is whatever the caller passes (\<open>add_block\<close> passes the stored hash of
  the latest block).
\<close>

definition create_block :: "lib \<Rightarrow> rat \<Rightarrow> int \<Rightarrow> Vote list \<Rightarrow> pyval \<Rightarrow> exn + Block" where
  "create_block L now i vs p = Block_init L (PInt i) (PFloat now) vs p (PStr [])"

definition validate_hash :: "lib \<Rightarrow> Block \<Rightarrow> bool" where
  "validate_hash L b = (hash b = PStr (calculate_hash L b))"

section \<open>Blockchain\<close>

record Blockchain =
  chain :: "Block list"

text \<open>\<open>__init__\<close> with \<open>create_genesis_block\<close>; the constructor of the block may raise.\<close>

definition create_genesis_block :: "lib \<Rightarrow> rat \<Rightarrow> Blockchain \<Rightarrow> exn + Blockchain" where
  "create_genesis_block L now bc =
     (case create_block L now 0 [] (PStr (py ''0'')) of
        Inl e \<Rightarrow> Inl e
      | Inr genesis_block \<Rightarrow> Inr (bc\<lparr>chain := chain bc @ [genesis_block]\<rparr>))"

definition Blockchain_init :: "lib \<Rightarrow> rat \<Rightarrow> exn + Blockchain" where
  "Blockchain_init L now = create_genesis_block L now \<lparr>chain = []\<rparr>"

definition get_latest_block :: "Blockchain \<Rightarrow> exn + Block" where
  "get_latest_block bc = (if chain bc = [] then Inl IndexError else Inr (last (chain bc)))"

text \<open>
  \<open>add_block\<close>: every exception is caught and answered with \<open>False\<close>; the chain changes
  only in the last step. The argument is a list of \<open>Vote\<close> objects by its type.
\<close>

definition add_block :: "lib \<Rightarrow> rat \<Rightarrow> Vote list \<Rightarrow> Blockchain \<Rightarrow> bool \<times> Blockchain" where
  "add_block L now vs bc =
     (case get_latest_block bc of
        Inl e \<Rightarrow> (False, bc)
      | Inr latest_block \<Rightarrow>
          (let new_index = index latest_block + 1
           in case create_block L now new_index vs (hash latest_block) of
                Inl e \<Rightarrow> (False, bc)
              | Inr new_block \<Rightarrow> (True, bc\<lparr>chain := chain bc @ [new_block]\<rparr>)))"

text \<open>The loop of \<open>validate_chain\<close> over \<open>range(1, len(self.chain))\<close>.\<close>

fun check_links :: "lib \<Rightarrow> Block list \<Rightarrow> nat list \<Rightarrow> bool" where
  "check_links L c [] = True"
| "check_links L c (i # rest) =
     (let current_block = c ! i; previous_block = c ! (i - 1)
      in if \<not> validate_hash L current_block then False
         else if PStr (previous_hash current_block) \<noteq> hash previous_block then False
         else if index current_block \<noteq> index previous_block + 1 then False
         else check_links L c rest)"

definition validate_chain :: "lib \<Rightarrow> Blockchain \<Rightarrow> bool" where
  "validate_chain L bc =
     (if chain bc = [] then False
      else (let genesis = chain bc ! 0
            in if index genesis \<noteq> 0 \<or> previous_hash genesis \<noteq> py ''0'' then False
               else if \<not> validate_hash L genesis then False
               else check_links L (chain bc) [1..<length (chain bc)]))"

definition get_all_votes :: "Blockchain \<Rightarrow> Vote list" where
  "get_all_votes bc = concat (map votes (chain bc))"

definition get_block_count :: "Blockchain \<Rightarrow> nat" where
  "get_block_count bc = length (chain bc)"

definition Blockchain_to_dict :: "Blockchain \<Rightarrow> pyval" where
  "Blockchain_to_dict bc = PDict [(py ''chain'', PList (map Block_to_dict (chain bc)))]"

definition Blockchain_from_dict :: "lib \<Rightarrow> pyval \<Rightarrow> exn + Blockchain" where
  "Blockchain_from_dict L data =
     (case data of
        PDict kvs \<Rightarrow>
          if \<not> has_key kvs (py ''chain'') then Inl KeyError
          else (case getitem kvs (py ''chain'') of
                  Inl e \<Rightarrow> Inl e
                | Inr cd \<Rightarrow>
                    (case py_iter cd of
                       Inl e \<Rightarrow> Inl e
                     | Inr items \<Rightarrow>
                         (case map_exn (Block_from_dict L) items of
                            Inl e \<Rightarrow> Inl e
                          | Inr bs \<Rightarrow> Inr \<lparr>chain = bs\<rparr>)))
      | _ \<Rightarrow> Inl TypeError)"

section \<open>VotingSystem\<close>

record VotingSystem =
  blockchain :: Blockchain
  voter_manager :: VoterManager
  pending_votes :: "Vote list"

definition VotingSystem_init :: "lib \<Rightarrow> rat \<Rightarrow> exn + VotingSystem" where
  "VotingSystem_init L now =
     (case Blockchain_init L now of
        Inl e \<Rightarrow> Inl e
      | Inr bc \<Rightarrow> Inr \<lparr>blockchain = bc, voter_manager = VoterManager_init, pending_votes = []\<rparr>)"

text \<open>
  The operations answer with a dictionary: \<open>"success": True\<close> and the data, or
  \<open>"success": False\<close> and an error code (the message is left out).
\<close>

datatype error_code =
    DUPLICATE_VOTER | INVALID_VOTER_ID | REGISTRATION_ERROR
  | UNREGISTERED_VOTER | ALREADY_VOTED | INVALID_VOTE_DATA | VOTE_CASTING_ERROR
  | NO_PENDING_VOTES | BLOCK_CREATION_FAILED | BLOCK_CREATION_ERROR
  | FILE_NOT_FOUND | INVALID_BLOCKCHAIN | LOAD_ERROR

datatype 'a result = Success 'a | Failure error_code

definition register_voter :: "pyval \<Rightarrow> VotingSystem \<Rightarrow> pyval result \<times> VotingSystem" where
  "register_voter v vs =
     (case vm_register_voter v (voter_manager vs) of
        Inl e \<Rightarrow> (Failure (if e = ValueError then INVALID_VOTER_ID else REGISTRATION_ERROR), vs)
      | Inr (ok, vm) \<Rightarrow>
          if ok then (Success v, vs\<lparr>voter_manager := vm\<rparr>)
          else (Failure DUPLICATE_VOTER, vs\<lparr>voter_manager := vm\<rparr>))"

text \<open>
  \<open>cast_vote\<close>, \<open>now\<close> being the clock read by \<open>create_vote\<close>. The vote is appended to
  the pending votes before the voter is marked, so an exception of \<open>mark_as_voted\<close>
  would leave the vote in the list.
\<close>

definition cast_vote :: "rat \<Rightarrow> pyval \<Rightarrow> pyval \<Rightarrow> VotingSystem \<Rightarrow> Vote result \<times> VotingSystem" where
  "cast_vote now v c vs =
     (if \<not> is_registered (voter_manager vs) v then (Failure UNREGISTERED_VOTER, vs)
      else if has_voted (voter_manager vs) v then (Failure ALREADY_VOTED, vs)
      else (case create_vote now v c of
              Inl e \<Rightarrow> (Failure (if e = ValueError then INVALID_VOTE_DATA else VOTE_CASTING_ERROR), vs)
            | Inr vote \<Rightarrow>
                (let vs1 = vs\<lparr>pending_votes := pending_votes vs @ [vote]\<rparr>
                 in case mark_as_voted v (voter_manager vs1) of
                      Inl e \<Rightarrow> (Failure (if e = ValueError then INVALID_VOTE_DATA
                                           else VOTE_CASTING_ERROR), vs1)
                    | Inr vm \<Rightarrow> (Success vote, vs1\<lparr>voter_manager := vm\<rparr>))))"

record block_info =
  block_index :: int
  block_hash :: pyval
  votes_count :: nat
  block_timestamp :: pynum

definition create_block_from_pending_votes ::
    "lib \<Rightarrow> rat \<Rightarrow> VotingSystem \<Rightarrow> block_info result \<times> VotingSystem" where
  "create_block_from_pending_votes L now vs =
     (if pending_votes vs = [] then (Failure NO_PENDING_VOTES, vs)
      else (let votes_for_block = pending_votes vs
            in case add_block L now votes_for_block (blockchain vs) of
                 (True, bc) \<Rightarrow>
                   (let vote_count = length (pending_votes vs);
                        vs1 = vs\<lparr>blockchain := bc, pending_votes := []\<rparr>
                    in case get_latest_block bc of
                         Inl e \<Rightarrow> (Failure BLOCK_CREATION_ERROR, vs1)
                       | Inr latest_block \<Rightarrow>
                           (Success \<lparr>block_index = index latest_block,
                                     block_hash = hash latest_block,
                                     votes_count = vote_count,
                                     block_timestamp = Block.timestamp latest_block\<rparr>, vs1))
               | (False, bc) \<Rightarrow> (Failure BLOCK_CREATION_FAILED, vs\<lparr>blockchain := bc\<rparr>)))"

definition get_pending_votes_count :: "VotingSystem \<Rightarrow> nat" where
  "get_pending_votes_count vs = length (pending_votes vs)"

text \<open>
  \<open>validate_system_integrity\<close>. Each issue is a message that shows a set of voter ids:
  the issue carries the set.
\<close>

datatype issue = Unmarked "pystr fset" | NoVotesFound "pystr fset"

record integrity_report =
  blockchain_valid :: bool
  integrity_valid :: bool
  issues :: "issue list"
  total_blocks :: nat
  total_votes :: nat
  pending_count :: nat
  registered_count :: nat
  voted_count :: nat

definition validate_system_integrity :: "lib \<Rightarrow> VotingSystem \<Rightarrow> integrity_report" where
  "validate_system_integrity L vs =
     (let all_votes = get_all_votes (blockchain vs);
          voted = fset_of_list (get_voted_voters (voter_manager vs));
          blockchain_voters = fset_of_list (map voter_id all_votes);
          unmarked_voters = blockchain_voters |-| voted;
          integrity_issues = (if unmarked_voters \<noteq> {||} then [Unmarked unmarked_voters] else []);
          pending_voters = fset_of_list (map voter_id (pending_votes vs));
          all_voting_voters = blockchain_voters |\<union>| pending_voters;
          extra_voted_voters = voted |-| all_voting_voters;
          integrity_issues = integrity_issues
            @ (if extra_voted_voters \<noteq> {||} then [NoVotesFound extra_voted_voters] else [])
      in \<lparr>blockchain_valid = validate_chain L (blockchain vs),
          integrity_valid = (length integrity_issues = 0),
          issues = integrity_issues,
          total_blocks = get_block_count (blockchain vs),
          total_votes = length all_votes,
          pending_count = length (pending_votes vs),
          registered_count = length (get_registered_voters (voter_manager vs)),
          voted_count = length (get_voted_voters (voter_manager vs))\<rparr>)"

definition VotingSystem_to_dict :: "(pystr fset \<Rightarrow> pystr list) \<Rightarrow> VotingSystem \<Rightarrow> pyval" where
  "VotingSystem_to_dict order vs =
     PDict [(py ''blockchain'', Blockchain_to_dict (blockchain vs)),
            (py ''voter_manager'', VoterManager_to_dict order (voter_manager vs)),
            (py ''pending_votes'', PList (map Vote_to_dict (pending_votes vs)))]"

definition VotingSystem_from_dict :: "lib \<Rightarrow> pyval \<Rightarrow> exn + VotingSystem" where
  "VotingSystem_from_dict L data =
     (case data of
        PDict kvs \<Rightarrow>
          if \<not> (\<forall>key \<in> set [py ''blockchain'', py ''voter_manager'', py ''pending_votes''].
                   has_key kvs key)
          then Inl KeyError
          else (case (getitem kvs (py ''blockchain''), getitem kvs (py ''voter_manager''),
                      getitem kvs (py ''pending_votes'')) of
                  (Inr bd, Inr vd, Inr pd) \<Rightarrow>
                    (case Blockchain_from_dict L bd of
                       Inl e \<Rightarrow> Inl e
                     | Inr bc \<Rightarrow>
                         (case VoterManager_from_dict vd of
                            Inl e \<Rightarrow> Inl e
                          | Inr vm \<Rightarrow>
                              (case py_iter pd of
                                 Inl e \<Rightarrow> Inl e
                               | Inr items \<Rightarrow>
                                   (case map_exn Vote_from_dict items of
                                      Inl e \<Rightarrow> Inl e
                                    | Inr ps \<Rightarrow>
                                        Inr \<lparr>blockchain = bc, voter_manager = vm,
                                             pending_votes = ps\<rparr>))))
                | _ \<Rightarrow> Inl KeyError)
      | _ \<Rightarrow> Inl TypeError)"

text \<open>
  \<open>save_state\<close> writes \<open>json.dump(system_dict, f, indent=2, separators=(',', ': '))\<close>:
  \<open>state_text\<close> is the text written.
\<close>

definition pretty :: dump_cfg where
  "pretty = \<lparr>indent = Some 2, item_separator = '','', key_separator = '': '', sort_keys = False\<rparr>"

definition state_text :: "lib \<Rightarrow> (pystr fset \<Rightarrow> pystr list) \<Rightarrow> VotingSystem \<Rightarrow> string" where
  "state_text L order vs = dumps L pretty (VotingSystem_to_dict order vs)"

text \<open>
  \<open>load_state\<close>. Reading the file is outside the program: the file does not exist, or
  opening or parsing it raises, or \<open>json.load\<close> returns a value.
\<close>

datatype file_read = NoFile | ReadError | Parsed pyval

definition load_state ::
    "lib \<Rightarrow> file_read \<Rightarrow> VotingSystem \<Rightarrow> integrity_report result \<times> VotingSystem" where
  "load_state L f vs =
     (case f of
        NoFile \<Rightarrow> (Failure FILE_NOT_FOUND, vs)
      | ReadError \<Rightarrow> (Failure LOAD_ERROR, vs)
      | Parsed data \<Rightarrow>
          (case VotingSystem_from_dict L data of
             Inl e \<Rightarrow> (Failure LOAD_ERROR, vs)
           | Inr loaded_system \<Rightarrow>
               (let validation_result = validate_system_integrity L loaded_system
                in if \<not> blockchain_valid validation_result then (Failure INVALID_BLOCKCHAIN, vs)
                   else (Success validation_result,
                         vs\<lparr>blockchain := blockchain loaded_system,
                            voter_manager := voter_manager loaded_system,
                            pending_votes := pending_votes loaded_system\<rparr>))))"

section \<open>Sequences of calls and reachable states\<close>

text \<open>
  The calls a client makes on a \<open>VotingSystem\<close>, each with the clock it reads, and the
  state after a sequence of them; \<open>casts_for v\<close> holds of the calls that cast a vote
  for the voter \<open>v\<close>.
\<close>

datatype op = Register pyval | Cast rat pyval pyval | Seal rat

fun step :: "lib \<Rightarrow> op \<Rightarrow> VotingSystem \<Rightarrow> VotingSystem" where
  "step L (Register v) vs = snd (register_voter v vs)"
| "step L (Cast now v c) vs = snd (cast_vote now v c vs)"
| "step L (Seal now) vs = snd (create_block_from_pending_votes L now vs)"

definition run :: "lib \<Rightarrow> op list \<Rightarrow> VotingSystem \<Rightarrow> VotingSystem" where
  "run L ops vs = fold (step L) ops vs"

definition casts_for :: "pyval \<Rightarrow> op \<Rightarrow> bool" where
  "casts_for v x = (case x of Cast now w c \<Rightarrow> w = v | _ \<Rightarrow> False)"

text \<open>
  A sequence of \<open>add_block\<close> calls, each with its clock and its votes; the answer is
  \<open>True\<close> when every call answered \<open>True\<close>.
\<close>

fun add_blocks :: "lib \<Rightarrow> (rat \<times> Vote list) list \<Rightarrow> Blockchain \<Rightarrow> bool \<times> Blockchain" where
  "add_blocks L [] bc = (True, bc)"
| "add_blocks L ((now, vs) # rest) bc =
     (case add_block L now vs bc of
        (True, bc') \<Rightarrow> add_blocks L rest bc'
      | (False, bc') \<Rightarrow> (False, bc'))"

text \<open>
  The states a client can bring a system into: a fresh system, then any calls of
  \<open>register_voter\<close>, \<open>cast_vote\<close>, \<open>create_block_from_pending_votes\<close> and \<open>load_state\<close>.
\<close>

inductive reachable :: "lib \<Rightarrow> VotingSystem \<Rightarrow> bool" for L :: lib where
  fresh: "VotingSystem_init L t0 = Inr vs \<Longrightarrow> reachable L vs"
| call: "reachable L vs \<Longrightarrow> reachable L (step L x vs)"
| load: "reachable L vs \<Longrightarrow> reachable L (snd (load_state L f vs))"

section \<open>Invariants\<close>

text \<open>
  What one round of the loop of \<open>validate_chain\<close> checks at position \<open>i\<close>.
\<close>

definition link_ok :: "lib \<Rightarrow> Block list \<Rightarrow> nat \<Rightarrow> bool" where
  "link_ok L c i \<longleftrightarrow>
     validate_hash L (c ! i) \<and> PStr (previous_hash (c ! i)) = hash (c ! (i - 1))
     \<and> index (c ! i) = index (c ! (i - 1)) + 1"

text \<open>
  What the constructors guarantee of every object they build: the invariants of a
  vote, of a block and of a whole system.
\<close>

definition Vote_ok :: "Vote \<Rightarrow> bool" where
  "Vote_ok v \<longleftrightarrow> voter_id v \<noteq> [] \<and> candidate v \<noteq> [] \<and> \<not> le_zero (Vote.timestamp v)"

definition Block_ok :: "Block \<Rightarrow> bool" where
  "Block_ok b \<longleftrightarrow>
     0 \<le> index b \<and> \<not> le_zero (Block.timestamp b) \<and> list_all Vote_ok (votes b) \<and> truthy (hash b)"

definition wf_state :: "VotingSystem \<Rightarrow> bool" where
  "wf_state vs \<longleftrightarrow>
     list_all Block_ok (chain (blockchain vs)) \<and> list_all Vote_ok (pending_votes vs)
     \<and> [] |\<notin>| registered_voters (voter_manager vs)
     \<and> voted_voters (voter_manager vs) |\<subseteq>| registered_voters (voter_manager vs)"

text \<open>
  An order of listing that lists the two sets of a system: each list has the elements
  of its set.
\<close>

definition enumerates :: "(pystr fset \<Rightarrow> pystr list) \<Rightarrow> VotingSystem \<Rightarrow> bool" where
  "enumerates order vs \<longleftrightarrow>
     fset_of_list (order (registered_voters (voter_manager vs))) = registered_voters (voter_manager vs)
     \<and> fset_of_list (order (voted_voters (voter_manager vs))) = voted_voters (voter_manager vs)"

section \<open>The canonical text\<close>

text \<open>
  A Unicode scalar value: a code point that is not a surrogate. A string of scalar
  values is well-formed Unicode text.
\<close>

definition scalar :: "nat \<Rightarrow> bool" where
  "scalar c \<longleftrightarrow> c < 0x110000 \<and> \<not> (0xD800 \<le> c \<and> c \<le> 0xDFFF)"

definition well_formed :: "pystr \<Rightarrow> bool" where
  "well_formed s = list_all scalar s"

text \<open>
  The four shapes of an escape, by the class of the code point: itself, a backslash
  and one character, \<open>\uXXXX\<close>, and the two surrogates of a code point from
  \<open>0x10000\<close>.
\<close>

definition is_plain :: "nat \<Rightarrow> bool" where
  "is_plain c \<longleftrightarrow> 0x20 \<le> c \<and> c \<le> 0x7E \<and> c \<noteq> 0x22 \<and> c \<noteq> 0x5C"

definition is_short :: "nat \<Rightarrow> bool" where
  "is_short c \<longleftrightarrow> c \<in> {0x5C, 0x22, 0x08, 0x0C, 0x0A, 0x0D, 0x09}"

definition is_bmp :: "nat \<Rightarrow> bool" where
  "is_bmp c \<longleftrightarrow> c < 0x10000 \<and> \<not> is_plain c \<and> \<not> is_short c"

definition hi_surrogate :: "nat \<Rightarrow> nat" where
  "hi_surrogate c = 0xD800 + ((c - 0x10000) div 0x400) mod 0x400"

definition lo_surrogate :: "nat \<Rightarrow> nat" where
  "lo_surrogate c = 0xDC00 + (c - 0x10000) mod 0x400"

text \<open>
  What the injectivity of the canonical encoding needs of \<open>float.__repr__\<close>: different
  floats have different texts, no text has a comma, and no text is the text of an
  integer (Python writes a float with a point, an exponent, \<open>inf\<close> or \<open>nan\<close>).
\<close>

definition float_repr_ok :: "lib \<Rightarrow> bool" where
  "float_repr_ok L \<longleftrightarrow>
     inj (float_repr L) \<and> (\<forall>r. CHR '','' \<notin> set (float_repr L r))
     \<and> (\<forall>r i. float_repr L r \<noteq> int_repr i)"

text \<open>
  The canonical text of a number and of a vote, and the blocks and votes whose strings
  are well-formed.
\<close>

definition num_text :: "lib \<Rightarrow> pynum \<Rightarrow> string" where
  "num_text L t = (case t of NInt i \<Rightarrow> int_repr i | NFloat r \<Rightarrow> float_repr L r)"

definition vote_text :: "lib \<Rightarrow> Vote \<Rightarrow> string" where
  "vote_text L v =
     ''{'' @ encode_basestring_ascii (py ''candidate'') @ '':'' @ encode_basestring_ascii (candidate v)
     @ '','' @ encode_basestring_ascii (py ''timestamp'') @ '':'' @ num_text L (Vote.timestamp v)
     @ '','' @ encode_basestring_ascii (py ''voter_id'') @ '':'' @ encode_basestring_ascii (voter_id v)
     @ ''}''"

definition Vote_wf :: "Vote \<Rightarrow> bool" where
  "Vote_wf v \<longleftrightarrow> well_formed (voter_id v) \<and> well_formed (candidate v)"

definition Block_wf :: "Block \<Rightarrow> bool" where
  "Block_wf b \<longleftrightarrow> well_formed (previous_hash b) \<and> list_all Vote_wf (votes b)"

section \<open>Examples\<close>

text \<open>
  A library to run examples with: a digest that is always \<open>0\<close> and one text for every
  float. The theorems hold for every library; the examples only need one.
\<close>

definition L0 :: lib where
  "L0 = \<lparr>sha256 = (\<lambda>t. 0), float_repr = (\<lambda>r. ''0.0'')\<rparr>"

text \<open>
  A second library, whose float text is injective: a rational is written as
  numerator, slash, denominator. The digest of a text is its length.
\<close>

definition ratio_repr :: "rat \<Rightarrow> string" where
  "ratio_repr r = int_repr (fst (quotient_of r)) @ CHR ''/'' # int_repr (snd (quotient_of r))"

definition L1 :: lib where
  "L1 = \<lparr>sha256 = (\<lambda>t. of_nat (length t)), float_repr = ratio_repr\<rparr>"

text \<open>
  A vote, a fresh chain created at time \<open>1\<close>, and the chain after two appends, the
  second one of an empty list of votes.
\<close>

definition vote_alice :: Vote where
  "vote_alice = \<lparr>voter_id = py ''alice'', candidate = py ''A'', timestamp = NFloat 2\<rparr>"

definition bc_fresh :: Blockchain where
  "bc_fresh = projr (Blockchain_init L0 1)"

definition reqs0 :: "(rat \<times> Vote list) list" where
  "reqs0 = [(2, [vote_alice]), (3, [])]"

definition bc_two :: Blockchain where
  "bc_two = snd (add_blocks L0 reqs0 bc_fresh)"

text \<open>
  A fresh system created at time \<open>1\<close>; the system after \<open>alice\<close> has registered; after
  her vote for \<open>A\<close> at time \<open>2\<close>; and after \<open>bob\<close> has registered instead.
\<close>

definition vs_new :: VotingSystem where
  "vs_new = projr (VotingSystem_init L0 1)"

definition vs_alice :: VotingSystem where
  "vs_alice = snd (register_voter (PStr (py ''alice'')) (projr (VotingSystem_init L0 1)))"

definition vs_cast :: VotingSystem where
  "vs_cast = snd (cast_vote 2 (PStr (py ''alice'')) (PStr (py ''A'')) vs_alice)"

definition vs_two :: VotingSystem where
  "vs_two = snd (register_voter (PStr (py ''bob'')) vs_alice)"

text \<open>
  A document whose chain is empty, and the system \<open>from_dict\<close> builds from it.
\<close>

definition doc_empty_chain :: pyval where
  "doc_empty_chain =
     PDict [(py ''blockchain'', PDict [(py ''chain'', PList [])]),
            (py ''voter_manager'',
               PDict [(py ''registered_voters'', PList []), (py ''voted_voters'', PList [])]),
            (py ''pending_votes'', PList [])]"

definition vs_empty_chain :: VotingSystem where
  "vs_empty_chain = \<lparr>blockchain = \<lparr>chain = []\<rparr>, voter_manager = VoterManager_init, pending_votes = []\<rparr>"

text \<open>
  Two orders in which a set object may list the set of \<open>alice\<close> and \<open>bob\<close>; every other
  set is listed in sorted order by both.
\<close>

definition order_ab :: "pystr fset \<Rightarrow> pystr list" where
  "order_ab S = (if S = {|py ''alice'', py ''bob''|} then [py ''alice'', py ''bob'']
                 else sorted_list_of_fset S)"

definition order_ba :: "pystr fset \<Rightarrow> pystr list" where
  "order_ba S = (if S = {|py ''alice'', py ''bob''|} then [py ''bob'', py ''alice'']
                 else sorted_list_of_fset S)"



definition block_one :: Block where
  "block_one = \<lparr>index = 1, timestamp = NFloat 3, votes = [vote_alice], previous_hash = py ''0'', hash = PStr []\<rparr>"

text \<open>
  A fresh system with one voter registered, whose id is that code point, and the same
  with the id of the two surrogate code points.
\<close>

definition vs_astral :: VotingSystem where
  "vs_astral = snd (register_voter (PStr [0x1F600]) vs_new)"

definition vs_surrogates :: VotingSystem where
  "vs_surrogates = snd (register_voter (PStr [0xD83D, 0xDE00]) vs_new)"

section \<open>Properties\<close>

subsection \<open>Registering and voting\<close>

lemma nonempty_str_Some: "nonempty_str v = Some s \<longleftrightarrow> v = PStr s \<and> s \<noteq> []"
  by (cases v) auto

lemma register_voter_vm:
  "register_voter v vs = (r, vs') \<Longrightarrow>
     blockchain vs' = blockchain vs \<and> pending_votes vs' = pending_votes vs \<and>
     voted_voters (voter_manager vs') = voted_voters (voter_manager vs) \<and>
     registered_voters (voter_manager vs) |\<subseteq>| registered_voters (voter_manager vs')"
  by (auto simp: register_voter_def vm_register_voter_def split: option.splits if_splits)

lemma register_voter_Success:
  "register_voter v vs = (Success r, vs') \<Longrightarrow>
     \<exists>s. v = PStr s \<and> s \<noteq> [] \<and> s |\<notin>| registered_voters (voter_manager vs) \<and>
         registered_voters (voter_manager vs') = finsert s (registered_voters (voter_manager vs))"
  by (auto simp: register_voter_def vm_register_voter_def nonempty_str_Some split: option.splits if_splits)

lemma cast_vote_vm:
  "cast_vote now v c vs = (r, vs') \<Longrightarrow>
     blockchain vs' = blockchain vs \<and>
     registered_voters (voter_manager vs') = registered_voters (voter_manager vs) \<and>
     voted_voters (voter_manager vs) |\<subseteq>| voted_voters (voter_manager vs') \<and>
     (\<forall>s. s |\<in>| voted_voters (voter_manager vs') \<longrightarrow> s |\<notin>| voted_voters (voter_manager vs) \<longrightarrow>
          v = PStr s \<and> s |\<in>| registered_voters (voter_manager vs))"
  by (auto simp: cast_vote_def is_registered_def has_voted_def mark_as_voted_def Let_def nonempty_str_Some
           split: option.splits if_splits sum.splits)

lemma seal_vm:
  "create_block_from_pending_votes L now vs = (r, vs') \<Longrightarrow> voter_manager vs' = voter_manager vs"
  by (auto simp: create_block_from_pending_votes_def Let_def split: if_splits prod.splits bool.splits sum.splits)

lemma cast_vote_first:
  assumes "s |\<in>| registered_voters (voter_manager vs)" "s |\<notin>| voted_voters (voter_manager vs)"
    "s \<noteq> []" "nonempty_str c \<noteq> None" "0 < now"
  shows "\<exists>vote. cast_vote now (PStr s) c vs =
           (Success vote, vs\<lparr>pending_votes := pending_votes vs @ [vote],
                              voter_manager := (voter_manager vs)\<lparr>voted_voters := finsert s (voted_voters (voter_manager vs))\<rparr>\<rparr>)
          \<and> voter_id vote = s \<and> nonempty_str c = Some (candidate vote) \<and> Vote.timestamp vote = NFloat now"
  using assms
  by (auto simp: cast_vote_def is_registered_def has_voted_def mark_as_voted_def Let_def create_vote_def Vote_init_def
           split: option.splits if_splits sum.splits)

lemma cast_vote_again:
  assumes "s |\<in>| registered_voters (voter_manager vs)" "s |\<in>| voted_voters (voter_manager vs)" "s \<noteq> []"
  shows "cast_vote now (PStr s) c vs = (Failure ALREADY_VOTED, vs)"
  using assms by (simp add: cast_vote_def is_registered_def has_voted_def)

lemma step_cases:
  obtains v r where "x = Register v" "register_voter v vs = (r, step L x vs)"
  | now v c r where "x = Cast now v c" "cast_vote now v c vs = (r, step L x vs)"
  | now r where "x = Seal now" "create_block_from_pending_votes L now vs = (r, step L x vs)"
proof (cases x)
  case (Register v)
  then show ?thesis using that(1)[of v "fst (register_voter v vs)"] by simp
next
  case (Cast now v c)
  then show ?thesis using that(2)[of now v c "fst (cast_vote now v c vs)"] by simp
next
  case (Seal now)
  then show ?thesis using that(3)[of now "fst (create_block_from_pending_votes L now vs)"] by simp
qed

lemma step_registered_mono:
  "registered_voters (voter_manager vs) |\<subseteq>| registered_voters (voter_manager (step L x vs))"
  by (rule step_cases[of x vs L]) (use register_voter_vm cast_vote_vm seal_vm in fastforce)+

lemma step_voted_mono:
  "voted_voters (voter_manager vs) |\<subseteq>| voted_voters (voter_manager (step L x vs))"
  by (rule step_cases[of x vs L]) (use register_voter_vm cast_vote_vm seal_vm in fastforce)+

lemma step_voted_new:
  assumes "s |\<in>| voted_voters (voter_manager (step L x vs))" "s |\<notin>| voted_voters (voter_manager vs)"
  shows "casts_for (PStr s) x \<and> s |\<in>| registered_voters (voter_manager vs)"
proof (rule step_cases[of x vs L])
  fix v r assume "x = Register v" "register_voter v vs = (r, step L x vs)"
  then show ?thesis using assms register_voter_vm by fastforce
next
  fix now v c r assume "x = Cast now v c" "cast_vote now v c vs = (r, step L x vs)"
  then show ?thesis using assms cast_vote_vm[of now v c vs r "step L x vs"] by (simp add: casts_for_def)
next
  fix now r assume "x = Seal now" "create_block_from_pending_votes L now vs = (r, step L x vs)"
  then show ?thesis using assms seal_vm by fastforce
qed

lemma run_mono:
  "registered_voters (voter_manager vs) |\<subseteq>| registered_voters (voter_manager (run L ops vs))
   \<and> voted_voters (voter_manager vs) |\<subseteq>| voted_voters (voter_manager (run L ops vs))"
proof (induction ops arbitrary: vs)
  case Nil
  show ?case by (simp add: run_def)
next
  case (Cons x ops)
  have "run L (x # ops) vs = run L ops (step L x vs)" by (simp add: run_def)
  then show ?case using Cons[of "step L x vs"] step_registered_mono[of vs L x] step_voted_mono[of vs L x] by auto
qed

lemma run_not_voted:
  "s |\<notin>| voted_voters (voter_manager vs) \<Longrightarrow> \<forall>x\<in>set ops. \<not> casts_for (PStr s) x
     \<Longrightarrow> s |\<notin>| voted_voters (voter_manager (run L ops vs))"
proof (induction ops arbitrary: vs)
  case Nil
  then show ?case by (simp add: run_def)
next
  case (Cons x ops)
  have "run L (x # ops) vs = run L ops (step L x vs)" by (simp add: run_def)
  moreover have "s |\<notin>| voted_voters (voter_manager (step L x vs))"
    using step_voted_new[of s L x vs] Cons.prems by auto
  ultimately show ?case using Cons.IH[of "step L x vs"] Cons.prems by simp
qed

lemma run_voted_registered:
  "voted_voters (voter_manager vs) |\<subseteq>| registered_voters (voter_manager vs)
     \<Longrightarrow> voted_voters (voter_manager (run L ops vs)) |\<subseteq>| registered_voters (voter_manager (run L ops vs))"
proof (induction ops arbitrary: vs)
  case Nil
  then show ?case by (simp add: run_def)
next
  case (Cons x ops)
  have "run L (x # ops) vs = run L ops (step L x vs)" by (simp add: run_def)
  moreover have "voted_voters (voter_manager (step L x vs)) |\<subseteq>| registered_voters (voter_manager (step L x vs))"
    using step_voted_new[of _ L x vs] Cons.prems step_registered_mono[of vs L x] by blast
  ultimately show ?case using Cons.IH[of "step L x vs"] by simp
qed

lemma VotingSystem_init_vm:
  "VotingSystem_init L t0 = Inr vs \<Longrightarrow> voter_manager vs = VoterManager_init \<and> pending_votes vs = []"
  by (auto simp: VotingSystem_init_def split: sum.splits)

text \<open>
  Claim C1 (one-vote enforcement). In a system built from a fresh one by any calls
  \<open>ops0\<close>, let the registration of \<open>v\<close> succeed, and let any calls \<open>ops1\<close> follow that do
  not cast a vote for \<open>v\<close>. Then the first \<open>cast_vote\<close> for \<open>v\<close>, with a non-empty
  candidate and a positive clock, succeeds and appends its vote to the pending votes;
  and after any further calls \<open>ops2\<close>, every \<open>cast_vote\<close> for \<open>v\<close>, with any candidate
  and any clock, answers \<open>ALREADY_VOTED\<close> and returns the state it was given, so the
  pending votes are the same list.
\<close>

theorem one_vote_enforcement:
  assumes init: "VotingSystem_init L t0 = Inr vs_init"
    and reg: "register_voter v (run L ops0 vs_init) = (Success r, vs1)"
    and others: "\<forall>x\<in>set ops1. \<not> casts_for v x"
    and cand: "nonempty_str c \<noteq> None"
    and clock: "0 < now"
  shows "\<exists>vote vs3. cast_vote now v c (run L ops1 vs1) = (Success vote, vs3)
           \<and> pending_votes vs3 = pending_votes (run L ops1 vs1) @ [vote]
           \<and> (\<forall>ops2 now' c'. cast_vote now' v c' (run L ops2 vs3) = (Failure ALREADY_VOTED, run L ops2 vs3))"
proof -
  let ?vs0 = "run L ops0 vs_init"
  let ?vs2 = "run L ops1 vs1"
  have inv0: "voted_voters (voter_manager ?vs0) |\<subseteq>| registered_voters (voter_manager ?vs0)"
    using run_voted_registered[of vs_init L ops0] VotingSystem_init_vm[OF init]
    by (simp add: VoterManager_init_def)
  obtain s where s: "v = PStr s" "s \<noteq> []" "s |\<notin>| registered_voters (voter_manager ?vs0)"
    "registered_voters (voter_manager vs1) = finsert s (registered_voters (voter_manager ?vs0))"
    using register_voter_Success[OF reg] by blast
  have "voted_voters (voter_manager vs1) = voted_voters (voter_manager ?vs0)"
    using register_voter_vm[OF reg] by simp
  then have nv1: "s |\<notin>| voted_voters (voter_manager vs1)"
    using inv0 s(3) by blast
  have reg2: "s |\<in>| registered_voters (voter_manager ?vs2)"
    using run_mono[of vs1 L ops1] s(4) by blast
  have nv2: "s |\<notin>| voted_voters (voter_manager ?vs2)"
    using run_not_voted[OF nv1, of ops1 L] others s(1) by simp
  obtain vote where cast: "cast_vote now (PStr s) c ?vs2 =
      (Success vote, ?vs2\<lparr>pending_votes := pending_votes ?vs2 @ [vote],
          voter_manager := (voter_manager ?vs2)\<lparr>voted_voters := finsert s (voted_voters (voter_manager ?vs2))\<rparr>\<rparr>)"
    using cast_vote_first[OF reg2 nv2 s(2) cand clock] by blast
  let ?vs3 = "?vs2\<lparr>pending_votes := pending_votes ?vs2 @ [vote],
          voter_manager := (voter_manager ?vs2)\<lparr>voted_voters := finsert s (voted_voters (voter_manager ?vs2))\<rparr>\<rparr>"
  have "cast_vote now' (PStr s) c' (run L ops2 ?vs3) = (Failure ALREADY_VOTED, run L ops2 ?vs3)" for ops2 now' c'
  proof (rule cast_vote_again)
    show "s |\<in>| registered_voters (voter_manager (run L ops2 ?vs3))"
      using run_mono[of ?vs3 L ops2] reg2 by auto
    show "s |\<in>| voted_voters (voter_manager (run L ops2 ?vs3))"
      using run_mono[of ?vs3 L ops2] by auto
    show "s \<noteq> []" by (rule s(2))
  qed
  then show ?thesis using cast s(1) by auto
qed

lemma VotingSystem_init_ok: "0 < t0 \<Longrightarrow> VotingSystem_init L t0 = Inr (projr (VotingSystem_init L t0))"
  by (simp add: VotingSystem_init_def Blockchain_init_def create_genesis_block_def create_block_def
      Block_init_def Let_def)

text \<open>
  The theorem at work: \<open>alice\<close> registers in a fresh system, \<open>bob\<close> registers, \<open>alice\<close>
  votes for \<open>A\<close>, \<open>bob\<close> votes, and \<open>alice\<close>'s second vote, for \<open>B\<close>, is refused.
\<close>

theorem one_vote_enforcement_witness:
  "VotingSystem_init L0 1 = Inr (projr (VotingSystem_init L0 1))
   \<and> register_voter (PStr (py ''alice'')) (run L0 [] (projr (VotingSystem_init L0 1)))
       = (Success (PStr (py ''alice'')), snd (register_voter (PStr (py ''alice'')) (projr (VotingSystem_init L0 1))))
   \<and> \<not> casts_for (PStr (py ''alice'')) (Register (PStr (py ''bob'')))
   \<and> nonempty_str (PStr (py ''A'')) \<noteq> None \<and> (0::rat) < 2
   \<and> (\<exists>vote vs3. cast_vote 2 (PStr (py ''alice'')) (PStr (py ''A''))
          (run L0 [Register (PStr (py ''bob''))] (snd (register_voter (PStr (py ''alice'')) (projr (VotingSystem_init L0 1)))))
          = (Success vote, vs3)
        \<and> cast_vote 3 (PStr (py ''alice'')) (PStr (py ''B'')) (run L0 [Cast 3 (PStr (py ''bob'')) (PStr (py ''B''))] vs3)
          = (Failure ALREADY_VOTED, run L0 [Cast 3 (PStr (py ''bob'')) (PStr (py ''B''))] vs3))"
proof -
  have h1: "VotingSystem_init L0 1 = Inr (projr (VotingSystem_init L0 1))"
    by (rule VotingSystem_init_ok) simp
  have h2: "register_voter (PStr (py ''alice'')) (run L0 [] (projr (VotingSystem_init L0 1)))
       = (Success (PStr (py ''alice'')), snd (register_voter (PStr (py ''alice'')) (projr (VotingSystem_init L0 1))))"
    using VotingSystem_init_vm[OF h1]
    by (simp add: run_def register_voter_def vm_register_voter_def VoterManager_init_def)
  have h3: "\<forall>x \<in> set [Register (PStr (py ''bob''))]. \<not> casts_for (PStr (py ''alice'')) x"
    by (simp add: casts_for_def)
  have h4: "nonempty_str (PStr (py ''A'')) \<noteq> None" by simp
  have h5: "(0::rat) < 2" by simp
  have h3': "\<not> casts_for (PStr (py ''alice'')) (Register (PStr (py ''bob'')))"
    by (simp add: casts_for_def)
  show ?thesis
    using h1 h2 h3' h4 h5 one_vote_enforcement[OF h1 h2 h3 h4 h5] by blast
qed

text \<open>
  Claim C10 (an invalid candidate changes nothing). For a registered voter who has not
  voted, \<open>cast_vote\<close> with a candidate that is empty or not a string answers
  \<open>INVALID_VOTE_DATA\<close> and returns the state it was given: nothing is appended to the
  pending votes and the voter is not marked. A later \<open>cast_vote\<close> of the same voter
  with a non-empty candidate (and a positive clock) succeeds, appends its vote and
  marks the voter.
\<close>

theorem cast_vote_invalid_candidate:
  assumes "is_registered (voter_manager vs) v"
    and "\<not> has_voted (voter_manager vs) v"
    and "nonempty_str c = None"
  shows "cast_vote now v c vs = (Failure INVALID_VOTE_DATA, vs)
         \<and> (\<forall>now' c'. 0 < now' \<longrightarrow> nonempty_str c' \<noteq> None \<longrightarrow>
               (\<exists>vote vs'. cast_vote now' v c' (snd (cast_vote now v c vs)) = (Success vote, vs')
                  \<and> pending_votes vs' = pending_votes vs @ [vote]
                  \<and> has_voted (voter_manager vs') v))"
proof -
  obtain s where s: "v = PStr s" "s \<noteq> []" "s |\<in>| registered_voters (voter_manager vs)"
    "s |\<notin>| voted_voters (voter_manager vs)"
    using assms(1,2) by (auto simp: is_registered_def has_voted_def nonempty_str_Some split: option.splits)
  have fail: "cast_vote now v c vs = (Failure INVALID_VOTE_DATA, vs)"
    using assms by (simp add: cast_vote_def create_vote_def Vote_init_def split: option.splits)
  have "\<exists>vote vs'. cast_vote now' v c' vs = (Success vote, vs')
          \<and> pending_votes vs' = pending_votes vs @ [vote] \<and> has_voted (voter_manager vs') v"
    if "0 < now'" "nonempty_str c' \<noteq> None" for now' c'
    using cast_vote_first[OF s(3) s(4) s(2) that(2) that(1)] s(1,2)
    by (auto simp: has_voted_def)
  then show ?thesis using fail by simp
qed

lemma vs_alice_vm:
  "voter_manager vs_alice = \<lparr>registered_voters = {|py ''alice''|}, voted_voters = {||}\<rparr>"
  "pending_votes vs_alice = []"
  using VotingSystem_init_vm[OF VotingSystem_init_ok[of 1 L0]]
  by (simp_all add: vs_alice_def register_voter_def vm_register_voter_def VoterManager_init_def)

text \<open>
  The theorem at work on \<open>vs_alice\<close>: the empty candidate and \<open>None\<close> are refused, and
  the vote for \<open>A\<close> that follows is accepted.
\<close>

theorem cast_vote_invalid_candidate_witness:
  "is_registered (voter_manager vs_alice) (PStr (py ''alice''))
   \<and> \<not> has_voted (voter_manager vs_alice) (PStr (py ''alice''))
   \<and> nonempty_str (PStr []) = None \<and> nonempty_str PNone = None
   \<and> cast_vote 2 (PStr (py ''alice'')) (PStr []) vs_alice = (Failure INVALID_VOTE_DATA, vs_alice)
   \<and> cast_vote 2 (PStr (py ''alice'')) PNone vs_alice = (Failure INVALID_VOTE_DATA, vs_alice)
   \<and> (0::rat) < 3 \<and> nonempty_str (PStr (py ''A'')) \<noteq> None
   \<and> (\<exists>vote vs'. cast_vote 3 (PStr (py ''alice'')) (PStr (py ''A''))
          (snd (cast_vote 2 (PStr (py ''alice'')) (PStr []) vs_alice)) = (Success vote, vs')
        \<and> pending_votes vs' = pending_votes vs_alice @ [vote])"
proof -
  have h1: "is_registered (voter_manager vs_alice) (PStr (py ''alice''))"
    by (simp add: vs_alice_vm is_registered_def)
  have h2: "\<not> has_voted (voter_manager vs_alice) (PStr (py ''alice''))"
    by (simp add: vs_alice_vm has_voted_def)
  have h3: "nonempty_str (PStr []) = None" by simp
  have h4: "nonempty_str PNone = None" by simp
  have h5: "(0::rat) < 3" "nonempty_str (PStr (py ''A'')) \<noteq> None" by simp_all
  show ?thesis
    using h1 h2 h3 h4 h5 cast_vote_invalid_candidate[OF h1 h2 h3, of 2]
      cast_vote_invalid_candidate[OF h1 h2 h4, of 2]
    by blast
qed

subsection \<open>The ledger\<close>

lemma check_links_iff: "check_links L c is \<longleftrightarrow> list_all (link_ok L c) is"
  by (induction "is") (auto simp: link_ok_def Let_def)

lemma validate_chain_iff:
  "validate_chain L bc \<longleftrightarrow>
     chain bc \<noteq> [] \<and> index (chain bc ! 0) = 0 \<and> previous_hash (chain bc ! 0) = py ''0''
     \<and> validate_hash L (chain bc ! 0)
     \<and> (\<forall>i. 1 \<le> i \<and> i < length (chain bc) \<longrightarrow> link_ok L (chain bc) i)"
  by (auto simp: validate_chain_def Let_def check_links_iff list_all_iff)

lemma calculate_hash_hash_update [simp]: "calculate_hash L (b\<lparr>hash := h\<rparr>) = calculate_hash L b"
  by (simp add: calculate_hash_def block_string_def block_data_def)

lemma calculate_hash_content:
  "index a = index b \<Longrightarrow> Block.timestamp a = Block.timestamp b \<Longrightarrow> votes a = votes b
     \<Longrightarrow> previous_hash a = previous_hash b \<Longrightarrow> calculate_hash L a = calculate_hash L b"
  by (simp add: calculate_hash_def block_string_def block_data_def)

lemma create_block_Inr:
  "create_block L now i vs p = Inr nb \<longleftrightarrow>
     0 \<le> i \<and> 0 < now \<and>
     (\<exists>ph. p = PStr ph \<and>
        nb = \<lparr>index = i, timestamp = NFloat now, votes = vs, previous_hash = ph,
              hash = PStr (calculate_hash L \<lparr>index = i, timestamp = NFloat now, votes = vs,
                                            previous_hash = ph, hash = PStr []\<rparr>)\<rparr>)"
  by (auto simp: create_block_def Block_init_def Let_def calculate_hash_def block_string_def
      block_data_def split: pyval.splits)

lemma create_block_valid:
  "create_block L now i vs p = Inr nb \<Longrightarrow>
     validate_hash L nb \<and> index nb = i \<and> PStr (previous_hash nb) = p \<and> votes nb = vs
     \<and> Block.timestamp nb = NFloat now \<and> 0 \<le> i \<and> 0 < now"
  unfolding create_block_Inr validate_hash_def
  by (auto simp: calculate_hash_def block_string_def block_data_def)

lemma create_block_Inl:
  "(\<exists>e. create_block L now i vs p = Inl e) \<longleftrightarrow> i < 0 \<or> now \<le> 0 \<or> (\<forall>ph. p \<noteq> PStr ph)"
  by (auto simp: create_block_def Block_init_def Let_def split: pyval.splits)

lemma add_block_True:
  "add_block L now vs bc = (True, bc') \<longleftrightarrow>
     chain bc \<noteq> [] \<and>
     (\<exists>nb. create_block L now (index (last (chain bc)) + 1) vs (hash (last (chain bc))) = Inr nb
        \<and> bc' = bc\<lparr>chain := chain bc @ [nb]\<rparr>)"
  by (auto simp: add_block_def get_latest_block_def Let_def split: sum.splits)

lemma add_block_False:
  "add_block L now vs bc = (False, bc') \<longleftrightarrow>
     bc' = bc \<and> (chain bc = [] \<or> index (last (chain bc)) + 1 < 0 \<or> now \<le> 0
                 \<or> (\<forall>ph. hash (last (chain bc)) \<noteq> PStr ph))"
  using create_block_Inl[of L now "index (last (chain bc)) + 1" vs "hash (last (chain bc))"]
  by (auto simp: add_block_def get_latest_block_def Let_def split: sum.splits)

lemma validate_chain_append:
  assumes "validate_chain L bc" "validate_hash L nb"
    "PStr (previous_hash nb) = hash (last (chain bc))" "index nb = index (last (chain bc)) + 1"
  shows "validate_chain L (bc\<lparr>chain := chain bc @ [nb]\<rparr>)"
proof -
  let ?c = "chain bc"
  have ne: "?c \<noteq> []" using assms(1) by (simp add: validate_chain_iff)
  have "link_ok L (?c @ [nb]) i" if "1 \<le> i" "i < length (?c @ [nb])" for i
  proof (cases "i < length ?c")
    case True
    then have "link_ok L ?c i" using assms(1) that by (simp add: validate_chain_iff)
    moreover have "i - 1 < length ?c" using True by simp
    ultimately show ?thesis using True by (simp add: link_ok_def nth_append)
  next
    case False
    then have i: "i = length ?c" using that by simp
    then show ?thesis using assms(2-4) ne
      by (simp add: link_ok_def nth_append last_conv_nth)
  qed
  then show ?thesis using assms(1) ne
    by (simp add: validate_chain_iff nth_append)
qed

lemma Blockchain_init_Inr:
  "Blockchain_init L t0 = Inr bc \<longleftrightarrow>
     0 < t0 \<and> (\<exists>g. create_block L t0 0 [] (PStr (py ''0'')) = Inr g \<and> bc = \<lparr>chain = [g]\<rparr>)"
  using create_block_valid[of L t0 0 "[]" "PStr (py ''0'')"]
  by (auto simp: Blockchain_init_def create_genesis_block_def split: sum.splits)

lemma Blockchain_init_valid:
  assumes "Blockchain_init L t0 = Inr bc"
  shows "validate_chain L bc \<and> length (chain bc) = 1 \<and> index (last (chain bc)) = 0 \<and> votes (last (chain bc)) = []"
proof -
  obtain g where g: "create_block L t0 0 [] (PStr (py ''0'')) = Inr g" "bc = \<lparr>chain = [g]\<rparr>"
    using assms by (auto simp: Blockchain_init_Inr)
  show ?thesis using create_block_valid[OF g(1)] g(2)
    by (simp add: validate_chain_iff)
qed

lemma hash_created:
  "validate_chain L bc \<Longrightarrow> i < length (chain bc)
     \<Longrightarrow> hash (chain bc ! i) = PStr (calculate_hash L (chain bc ! i))"
  by (cases "i = 0") (auto simp: validate_chain_iff link_ok_def validate_hash_def)

lemma valid_last_hash:
  assumes "validate_chain L bc"
  shows "chain bc \<noteq> [] \<and> validate_hash L (last (chain bc))"
proof -
  have ne: "chain bc \<noteq> []" using assms by (simp add: validate_chain_iff)
  then have "length (chain bc) - 1 < length (chain bc)" by simp
  from hash_created[OF assms this] ne show ?thesis
    by (simp add: last_conv_nth validate_hash_def)
qed

lemma add_blocks_valid:
  "validate_chain L bc \<Longrightarrow> add_blocks L reqs bc = (True, bc') \<Longrightarrow>
     validate_chain L bc' \<and> length (chain bc') = length (chain bc) + length reqs"
proof (induction reqs arbitrary: bc)
  case Nil
  then show ?case by simp
next
  case (Cons r reqs)
  obtain now vs where r: "r = (now, vs)" by (cases r)
  obtain ok bc1 where a: "add_block L now vs bc = (ok, bc1)" by (cases "add_block L now vs bc")
  with Cons.prems(2) r have ok: "ok" and rest: "add_blocks L reqs bc1 = (True, bc')"
    by (auto split: bool.splits)
  from a ok obtain nb where nb: "chain bc \<noteq> []"
      "create_block L now (index (last (chain bc)) + 1) vs (hash (last (chain bc))) = Inr nb"
      "bc1 = bc\<lparr>chain := chain bc @ [nb]\<rparr>"
    by (auto simp: add_block_True)
  have "validate_chain L bc1"
    using validate_chain_append[OF Cons.prems(1)] create_block_valid[OF nb(2)] nb(3) by simp
  from Cons.IH[OF this rest] nb(3) show ?case by simp
qed

lemma add_blocks_succeeds:
  "chain bc \<noteq> [] \<Longrightarrow> 0 \<le> index (last (chain bc)) \<Longrightarrow> validate_hash L (last (chain bc))
     \<Longrightarrow> \<forall>r \<in> set reqs. 0 < fst r
     \<Longrightarrow> \<exists>bc'. add_blocks L reqs bc = (True, bc')"
proof (induction reqs arbitrary: bc)
  case Nil
  then show ?case by simp
next
  case (Cons r reqs)
  obtain now vs where r: "r = (now, vs)" by (cases r)
  let ?i = "index (last (chain bc)) + 1"
  have "\<not> (\<exists>e. create_block L now ?i vs (hash (last (chain bc))) = Inl e)"
    using Cons.prems r by (simp add: create_block_Inl validate_hash_def)
  then obtain nb where nb: "create_block L now ?i vs (hash (last (chain bc))) = Inr nb"
    by (cases "create_block L now ?i vs (hash (last (chain bc)))") auto
  let ?bc1 = "bc\<lparr>chain := chain bc @ [nb]\<rparr>"
  have a: "add_block L now vs bc = (True, ?bc1)"
    using nb Cons.prems(1) by (simp add: add_block_True)
  have "\<exists>bc'. add_blocks L reqs ?bc1 = (True, bc')"
    using Cons.IH[of ?bc1] Cons.prems create_block_valid[OF nb] by simp
  then show ?case using a r by simp
qed

text \<open>
  Claim C2 (chain linkage). For every ledger, an \<open>add_block\<close> that answers \<open>True\<close> has
  appended exactly one block, whose index is the index of the previous latest block
  plus one, whose \<open>previous_hash\<close> is that block's hash and whose votes are the votes
  given. And after any sequence of successful appends to a fresh ledger,
  \<open>validate_chain\<close> returns true, the ledger has one block per append besides the
  genesis block, and every block after the first is linked to its predecessor.
\<close>

theorem chain_linkage:
  "(add_block L now vs bc = (True, bc') \<longrightarrow>
      chain bc \<noteq> [] \<and>
      (\<exists>nb. chain bc' = chain bc @ [nb] \<and> index nb = index (last (chain bc)) + 1
          \<and> PStr (previous_hash nb) = hash (last (chain bc)) \<and> votes nb = vs))
   \<and> (Blockchain_init L t0 = Inr bc0 \<longrightarrow> add_blocks L reqs bc0 = (True, bc1) \<longrightarrow>
        validate_chain L bc1 \<and> length (chain bc1) = Suc (length reqs)
        \<and> (\<forall>i. 1 \<le> i \<and> i < length (chain bc1) \<longrightarrow>
              index (chain bc1 ! i) = index (chain bc1 ! (i - 1)) + 1
              \<and> PStr (previous_hash (chain bc1 ! i)) = hash (chain bc1 ! (i - 1))))"
proof (intro conjI impI)
  assume a: "add_block L now vs bc = (True, bc')"
  then show "chain bc \<noteq> []" by (simp add: add_block_True)
  from a obtain nb where nb:
      "create_block L now (index (last (chain bc)) + 1) vs (hash (last (chain bc))) = Inr nb"
      "bc' = bc\<lparr>chain := chain bc @ [nb]\<rparr>"
    by (auto simp: add_block_True)
  show "\<exists>nb. chain bc' = chain bc @ [nb] \<and> index nb = index (last (chain bc)) + 1
          \<and> PStr (previous_hash nb) = hash (last (chain bc)) \<and> votes nb = vs"
    using create_block_valid[OF nb(1)] nb(2) by auto
next
  assume i: "Blockchain_init L t0 = Inr bc0" and r: "add_blocks L reqs bc0 = (True, bc1)"
  have v: "validate_chain L bc1 \<and> length (chain bc1) = length (chain bc0) + length reqs"
    using add_blocks_valid[OF _ r] Blockchain_init_valid[OF i] by simp
  then show "validate_chain L bc1" by simp
  show "length (chain bc1) = Suc (length reqs)"
    using v Blockchain_init_valid[OF i] by simp
  show "\<forall>i. 1 \<le> i \<and> i < length (chain bc1) \<longrightarrow>
              index (chain bc1 ! i) = index (chain bc1 ! (i - 1)) + 1
              \<and> PStr (previous_hash (chain bc1 ! i)) = hash (chain bc1 ! (i - 1))"
    using v by (simp add: validate_chain_iff link_ok_def)
qed

text \<open>
  Claim C3 (tamper detection). In a ledger that \<open>validate_chain\<close> accepts and that has
  at least two blocks, replacing the stored hash, the \<open>previous_hash\<close> or the index of
  any one block by a different value, everything else left as it is, gives a ledger
  that \<open>validate_chain\<close> rejects.
\<close>

theorem tamper_detection:
  assumes "validate_chain L bc" and "2 \<le> length (chain bc)" and "i < length (chain bc)"
  shows "(h \<noteq> hash (chain bc ! i) \<longrightarrow>
            \<not> validate_chain L (bc\<lparr>chain := (chain bc)[i := (chain bc ! i)\<lparr>hash := h\<rparr>]\<rparr>))
       \<and> (p \<noteq> previous_hash (chain bc ! i) \<longrightarrow>
            \<not> validate_chain L (bc\<lparr>chain := (chain bc)[i := (chain bc ! i)\<lparr>previous_hash := p\<rparr>]\<rparr>))
       \<and> (n \<noteq> index (chain bc ! i) \<longrightarrow>
            \<not> validate_chain L (bc\<lparr>chain := (chain bc)[i := (chain bc ! i)\<lparr>index := n\<rparr>]\<rparr>))"
proof (cases "i = 0")
  case True
  then show ?thesis using assms
    by (auto simp: validate_chain_iff validate_hash_def)
next
  case False
  then have i: "1 \<le> i" "i - 1 < length (chain bc)" "i - 1 \<noteq> i" using assms(3) by auto
  have ok: "link_ok L (chain bc) i" using assms(1,3) i(1) by (simp add: validate_chain_iff)
  have "\<not> link_ok L ((chain bc)[i := (chain bc ! i)\<lparr>hash := h\<rparr>]) i" if "h \<noteq> hash (chain bc ! i)"
    using ok that assms(3) i by (simp add: link_ok_def validate_hash_def)
  moreover have "\<not> link_ok L ((chain bc)[i := (chain bc ! i)\<lparr>previous_hash := p\<rparr>]) i"
    if "p \<noteq> previous_hash (chain bc ! i)"
  proof -
    have "hash (chain bc ! (i - 1)) = PStr (previous_hash (chain bc ! i))"
      using ok by (simp add: link_ok_def)
    then show ?thesis using that assms(3) i by (simp add: link_ok_def)
  qed
  moreover have "\<not> link_ok L ((chain bc)[i := (chain bc ! i)\<lparr>index := n\<rparr>]) i"
    if "n \<noteq> index (chain bc ! i)"
    using ok that assms(3) i by (simp add: link_ok_def)
  ultimately show ?thesis using assms(3) i(1)
    by (auto simp: validate_chain_iff)
qed

lemma length_hex_fixed [simp]: "length (hex_fixed k n) = k"
  by (induction k arbitrary: n) auto

lemma hexdigit_in: "hexdigit d \<in> set ''0123456789abcdef''"
proof -
  have "d mod 16 < length ''0123456789abcdef''" by simp
  then show ?thesis unfolding hexdigit_def by (rule nth_mem)
qed

lemma set_hex_fixed: "set (hex_fixed k n) \<subseteq> set ''0123456789abcdef''"
  by (induction k arbitrary: n) (use hexdigit_in in auto)

lemma length_calculate_hash [simp]: "length (calculate_hash L b) = 64"
  by (simp add: calculate_hash_def hexdigest_def)

lemma Blockchain_init_ok: "0 < t0 \<Longrightarrow> Blockchain_init L t0 = Inr (projr (Blockchain_init L t0))"
  by (simp add: Blockchain_init_def create_genesis_block_def create_block_def Block_init_def Let_def)

lemma bc_fresh_init: "Blockchain_init L0 1 = Inr bc_fresh"
  unfolding bc_fresh_def by (rule Blockchain_init_ok) simp

lemma bc_two_adds: "add_blocks L0 reqs0 bc_fresh = (True, bc_two)"
proof -
  have "\<exists>bc'. add_blocks L0 reqs0 bc_fresh = (True, bc')"
    using Blockchain_init_valid[OF bc_fresh_init] valid_last_hash[of L0 bc_fresh]
    by (intro add_blocks_succeeds) (auto simp: reqs0_def)
  then show ?thesis by (auto simp: bc_two_def)
qed

lemma bc_two_valid: "validate_chain L0 bc_two \<and> length (chain bc_two) = 3"
  using add_blocks_valid[OF _ bc_two_adds] Blockchain_init_valid[OF bc_fresh_init]
  by (simp add: reqs0_def)

text \<open>The theorem at work on a fresh chain and the two appends of \<open>reqs0\<close>.\<close>

theorem chain_linkage_witness:
  "Blockchain_init L0 1 = Inr bc_fresh \<and> add_blocks L0 reqs0 bc_fresh = (True, bc_two)
   \<and> add_block L0 2 [vote_alice] bc_fresh = (True, snd (add_block L0 2 [vote_alice] bc_fresh))
   \<and> (\<exists>nb. chain (snd (add_block L0 2 [vote_alice] bc_fresh)) = chain bc_fresh @ [nb]
         \<and> index nb = index (last (chain bc_fresh)) + 1
         \<and> PStr (previous_hash nb) = hash (last (chain bc_fresh)) \<and> votes nb = [vote_alice])
   \<and> validate_chain L0 bc_two \<and> length (chain bc_two) = 3
   \<and> index (chain bc_two ! 2) = index (chain bc_two ! 1) + 1
   \<and> PStr (previous_hash (chain bc_two ! 2)) = hash (chain bc_two ! 1)"
proof -
  have "\<exists>bc'. add_blocks L0 [(2, [vote_alice])] bc_fresh = (True, bc')"
    using Blockchain_init_valid[OF bc_fresh_init] valid_last_hash[of L0 bc_fresh]
    by (intro add_blocks_succeeds) auto
  then have h: "add_block L0 2 [vote_alice] bc_fresh = (True, snd (add_block L0 2 [vote_alice] bc_fresh))"
    by (auto split: prod.splits bool.splits)
  show ?thesis
    using chain_linkage[of L0 2 "[vote_alice]" bc_fresh "snd (add_block L0 2 [vote_alice] bc_fresh)"
        1 bc_fresh reqs0 bc_two] h bc_fresh_init bc_two_adds
    by (simp add: reqs0_def)
qed

text \<open>The theorem at work on the middle block of \<open>bc_two\<close>.\<close>

theorem tamper_detection_witness:
  "validate_chain L0 bc_two \<and> 2 \<le> length (chain bc_two) \<and> 1 < length (chain bc_two)
   \<and> PStr (py ''x'') \<noteq> hash (chain bc_two ! 1)
   \<and> \<not> validate_chain L0 (bc_two\<lparr>chain := (chain bc_two)[1 := (chain bc_two ! 1)\<lparr>hash := PStr (py ''x'')\<rparr>]\<rparr>)
   \<and> py ''x'' \<noteq> previous_hash (chain bc_two ! 1)
   \<and> \<not> validate_chain L0 (bc_two\<lparr>chain := (chain bc_two)[1 := (chain bc_two ! 1)\<lparr>previous_hash := py ''x''\<rparr>]\<rparr>)
   \<and> 7 \<noteq> index (chain bc_two ! 1)
   \<and> \<not> validate_chain L0 (bc_two\<lparr>chain := (chain bc_two)[1 := (chain bc_two ! 1)\<lparr>index := 7\<rparr>]\<rparr>)"
proof -
  have v: "validate_chain L0 bc_two" and l: "2 \<le> length (chain bc_two)" "1 < length (chain bc_two)"
    using bc_two_valid by simp_all
  have "0 < length (chain bc_two)" using l by linarith
  then have len: "hash (chain bc_two ! 1) = PStr (calculate_hash L0 (chain bc_two ! 1))"
    "hash (chain bc_two ! 0) = PStr (calculate_hash L0 (chain bc_two ! 0))"
    using hash_created[OF v] l by simp_all
  have lnk: "PStr (previous_hash (chain bc_two ! 1)) = hash (chain bc_two ! 0)"
    "index (chain bc_two ! 1) = 1"
    using v l by (simp_all add: validate_chain_iff link_ok_def)
  have short: "py ''x'' \<noteq> s" if "length s = 64" for s :: pystr
    using that by auto
  have d: "PStr (py ''x'') \<noteq> hash (chain bc_two ! 1)" "py ''x'' \<noteq> previous_hash (chain bc_two ! 1)"
    "7 \<noteq> index (chain bc_two ! 1)"
    using short[OF length_calculate_hash] len lnk by simp_all
  show ?thesis
    using v l d tamper_detection[OF v l(1) l(2), of "PStr (py ''x'')" "py ''x''" 7]
    by blast
qed

subsection \<open>Sealing a block and the integrity report\<close>

text \<open>
  Claim C5 (sealing is all or nothing). With no pending votes,
  \<open>create_block_from_pending_votes\<close> answers \<open>NO_PENDING_VOTES\<close> and returns the state it
  was given; on a fresh system the block count stays 1. With pending votes, when
  \<open>add_block\<close> succeeds the ledger has exactly one more block, which holds all the
  pending votes in their order, and the pending votes are cleared; when \<open>add_block\<close>
  fails the answer is \<open>BLOCK_CREATION_FAILED\<close> and the state, pending votes included,
  is the one given.
\<close>

theorem seal_block_all_or_nothing:
  "(pending_votes vs = [] \<longrightarrow>
      create_block_from_pending_votes L now vs = (Failure NO_PENDING_VOTES, vs))
   \<and> (VotingSystem_init L t0 = Inr vs0 \<longrightarrow>
        create_block_from_pending_votes L now vs0 = (Failure NO_PENDING_VOTES, vs0)
        \<and> get_block_count (blockchain vs0) = 1)
   \<and> (pending_votes vs \<noteq> [] \<longrightarrow> add_block L now (pending_votes vs) (blockchain vs) = (True, bc) \<longrightarrow>
        (\<exists>info nb. create_block_from_pending_votes L now vs
             = (Success info, vs\<lparr>blockchain := bc, pending_votes := []\<rparr>)
           \<and> chain bc = chain (blockchain vs) @ [nb] \<and> votes nb = pending_votes vs
           \<and> block_index info = index nb \<and> block_hash info = hash nb
           \<and> votes_count info = length (pending_votes vs)))
   \<and> (pending_votes vs \<noteq> [] \<longrightarrow> add_block L now (pending_votes vs) (blockchain vs) = (False, bc) \<longrightarrow>
        create_block_from_pending_votes L now vs = (Failure BLOCK_CREATION_FAILED, vs))"
proof (intro conjI impI)
  assume "pending_votes vs = []"
  then show "create_block_from_pending_votes L now vs = (Failure NO_PENDING_VOTES, vs)"
    by (simp add: create_block_from_pending_votes_def)
next
  assume i: "VotingSystem_init L t0 = Inr vs0"
  then obtain bc0 where bc0: "Blockchain_init L t0 = Inr bc0" "blockchain vs0 = bc0" "pending_votes vs0 = []"
    by (auto simp: VotingSystem_init_def split: sum.splits)
  show "create_block_from_pending_votes L now vs0 = (Failure NO_PENDING_VOTES, vs0)"
    using bc0 by (simp add: create_block_from_pending_votes_def)
  show "get_block_count (blockchain vs0) = 1"
    using bc0 Blockchain_init_valid[OF bc0(1)] by (simp add: get_block_count_def)
next
  assume p: "pending_votes vs \<noteq> []" and a: "add_block L now (pending_votes vs) (blockchain vs) = (True, bc)"
  from a obtain nb where nb: "chain (blockchain vs) \<noteq> []"
      "create_block L now (index (last (chain (blockchain vs))) + 1) (pending_votes vs)
         (hash (last (chain (blockchain vs)))) = Inr nb"
      "bc = (blockchain vs)\<lparr>chain := chain (blockchain vs) @ [nb]\<rparr>"
    by (auto simp: add_block_True)
  show "\<exists>info nb. create_block_from_pending_votes L now vs
             = (Success info, vs\<lparr>blockchain := bc, pending_votes := []\<rparr>)
           \<and> chain bc = chain (blockchain vs) @ [nb] \<and> votes nb = pending_votes vs
           \<and> block_index info = index nb \<and> block_hash info = hash nb
           \<and> votes_count info = length (pending_votes vs)"
    using p a nb(3) create_block_valid[OF nb(2)]
    by (simp add: create_block_from_pending_votes_def get_latest_block_def Let_def)
next
  assume p: "pending_votes vs \<noteq> []" and a: "add_block L now (pending_votes vs) (blockchain vs) = (False, bc)"
  then have "bc = blockchain vs" by (simp add: add_block_False)
  then show "create_block_from_pending_votes L now vs = (Failure BLOCK_CREATION_FAILED, vs)"
    using p a by (simp add: create_block_from_pending_votes_def Let_def)
qed

lemma vs_new_init: "VotingSystem_init L0 1 = Inr vs_new"
  unfolding vs_new_def by (rule VotingSystem_init_ok) simp

lemma vs_new_eq:
  "vs_new = \<lparr>blockchain = bc_fresh, voter_manager = VoterManager_init, pending_votes = []\<rparr>"
  by (simp add: vs_new_def VotingSystem_init_def bc_fresh_init)

lemma vs_new_blockchain: "blockchain vs_new = bc_fresh"
  by (simp add: vs_new_eq)

lemma vs_alice_blockchain: "blockchain vs_alice = bc_fresh"
  using vs_new_blockchain
  by (simp add: vs_alice_def vs_new_def register_voter_def vm_register_voter_def split: option.splits)

lemma vs_cast_eq:
  "vs_cast = \<lparr>blockchain = bc_fresh,
              voter_manager = \<lparr>registered_voters = {|py ''alice''|}, voted_voters = {|py ''alice''|}\<rparr>,
              pending_votes = [vote_alice]\<rparr>"
proof -
  have e: "vs_alice = \<lparr>blockchain = bc_fresh,
          voter_manager = \<lparr>registered_voters = {|py ''alice''|}, voted_voters = {||}\<rparr>,
          pending_votes = []\<rparr>"
    using vs_alice_vm vs_alice_blockchain by (cases vs_alice) simp
  show ?thesis
    unfolding vs_cast_def e
    by (simp add: cast_vote_def is_registered_def has_voted_def create_vote_def
        Vote_init_def mark_as_voted_def vote_alice_def)
qed

text \<open>
  The theorem at work: sealing with nothing pending, sealing \<open>alice\<close>'s vote at time
  \<open>3\<close>, and a sealing that fails because the clock reads \<open>0\<close>.
\<close>

theorem seal_block_all_or_nothing_witness:
  "pending_votes vs_alice = []
   \<and> create_block_from_pending_votes L0 3 vs_alice = (Failure NO_PENDING_VOTES, vs_alice)
   \<and> VotingSystem_init L0 1 = Inr vs_new
   \<and> create_block_from_pending_votes L0 3 vs_new = (Failure NO_PENDING_VOTES, vs_new)
   \<and> get_block_count (blockchain vs_new) = 1
   \<and> pending_votes vs_cast \<noteq> []
   \<and> add_block L0 3 (pending_votes vs_cast) (blockchain vs_cast)
        = (True, snd (add_block L0 3 [vote_alice] bc_fresh))
   \<and> (\<exists>info nb. create_block_from_pending_votes L0 3 vs_cast
          = (Success info, vs_cast\<lparr>blockchain := snd (add_block L0 3 [vote_alice] bc_fresh),
                                   pending_votes := []\<rparr>)
        \<and> chain (snd (add_block L0 3 [vote_alice] bc_fresh)) = chain (blockchain vs_cast) @ [nb]
        \<and> votes nb = [vote_alice] \<and> votes_count info = 1)
   \<and> add_block L0 0 (pending_votes vs_cast) (blockchain vs_cast) = (False, blockchain vs_cast)
   \<and> create_block_from_pending_votes L0 0 vs_cast = (Failure BLOCK_CREATION_FAILED, vs_cast)"
proof -
  have p0: "pending_votes vs_alice = []" by (rule vs_alice_vm)
  have p1: "pending_votes vs_cast \<noteq> []" "pending_votes vs_cast = [vote_alice]"
    "blockchain vs_cast = bc_fresh"
    by (simp_all add: vs_cast_eq)
  have "\<exists>bc'. add_blocks L0 [(3, [vote_alice])] bc_fresh = (True, bc')"
    using Blockchain_init_valid[OF bc_fresh_init] valid_last_hash[of L0 bc_fresh]
    by (intro add_blocks_succeeds) auto
  then have a: "add_block L0 3 (pending_votes vs_cast) (blockchain vs_cast)
                  = (True, snd (add_block L0 3 [vote_alice] bc_fresh))"
    by (auto simp: p1 split: prod.splits bool.splits)
  have f: "add_block L0 0 (pending_votes vs_cast) (blockchain vs_cast) = (False, blockchain vs_cast)"
    by (simp add: add_block_False)
  show ?thesis
    using p0 p1 a f vs_new_init
      seal_block_all_or_nothing[of vs_alice L0 3 1 vs_new "snd (add_block L0 3 [vote_alice] bc_fresh)"]
      seal_block_all_or_nothing[of vs_cast L0 3 1 vs_new "snd (add_block L0 3 [vote_alice] bc_fresh)"]
      seal_block_all_or_nothing[of vs_cast L0 0 1 vs_new "blockchain vs_cast"]
    by auto
qed

text \<open>
  Claim C6, as amended. \<open>validate_system_integrity\<close> reports the structural validity of
  the ledger as \<open>blockchain_valid\<close>; its issues are (a) the voter ids of sealed votes
  that are not in the voted set, when there are any, and (b) the ids of the voted set
  with no vote among the sealed and the pending votes, when there are any; and
  \<open>integrity_valid\<close> is the absence of issues. The two flags are reported side by side:
  \<open>integrity_valid\<close> does not take the structural validity into account.
\<close>

theorem validate_integrity_report:
  "blockchain_valid (validate_system_integrity L vs) = validate_chain L (blockchain vs)
   \<and> issues (validate_system_integrity L vs) =
       (let sealed = fset_of_list (map voter_id (get_all_votes (blockchain vs)));
            pending = fset_of_list (map voter_id (pending_votes vs));
            voted = voted_voters (voter_manager vs);
            a = sealed |-| voted;
            b = voted |-| (sealed |\<union>| pending)
        in (if a = {||} then [] else [Unmarked a]) @ (if b = {||} then [] else [NoVotesFound b]))
   \<and> integrity_valid (validate_system_integrity L vs) = (issues (validate_system_integrity L vs) = [])"
  by (simp add: validate_system_integrity_def get_voted_voters_def Let_def)

lemma from_dict_empty_chain: "VotingSystem_from_dict L doc_empty_chain = Inr vs_empty_chain"
  by (simp add: VotingSystem_from_dict_def doc_empty_chain_def vs_empty_chain_def has_key_def
      getitem_def Blockchain_from_dict_def VoterManager_from_dict_def)

text \<open>
  Claim C6 as stated fails: for the system decoded from a document with an empty
  chain there are no issues and \<open>integrity_valid\<close> is true, while the ledger is not
  structurally valid.
\<close>

theorem integrity_valid_counterexample:
  "VotingSystem_from_dict L0 doc_empty_chain = Inr vs_empty_chain
   \<and> integrity_valid (validate_system_integrity L0 vs_empty_chain)
       \<noteq> (validate_chain L0 (blockchain vs_empty_chain)
            \<and> issues (validate_system_integrity L0 vs_empty_chain) = [])"
  by (simp add: from_dict_empty_chain)
     (simp add: validate_system_integrity_def vs_empty_chain_def validate_chain_def
        get_all_votes_def get_voted_voters_def VoterManager_init_def Let_def)

lemma bc_fresh_votes: "get_all_votes bc_fresh = []"
proof -
  obtain g where g: "create_block L0 1 0 [] (PStr (py ''0'')) = Inr g" and e: "bc_fresh = \<lparr>chain = [g]\<rparr>"
    using bc_fresh_init by (auto simp: Blockchain_init_Inr)
  have "votes g = []" using create_block_valid[OF g] by simp
  then show ?thesis unfolding e by (simp add: get_all_votes_def)
qed

text \<open>
  The theorem at work: after \<open>alice\<close>'s vote the report has no issue, and with the
  pending vote taken away it has the issue (b) for \<open>alice\<close>.
\<close>

theorem validate_integrity_report_witness:
  "blockchain_valid (validate_system_integrity L0 vs_cast)
   \<and> issues (validate_system_integrity L0 vs_cast) = []
   \<and> integrity_valid (validate_system_integrity L0 vs_cast)
   \<and> issues (validate_system_integrity L0 (vs_cast\<lparr>pending_votes := []\<rparr>))
        = [NoVotesFound {|py ''alice''|}]
   \<and> \<not> integrity_valid (validate_system_integrity L0 (vs_cast\<lparr>pending_votes := []\<rparr>))"
proof -
  have v: "validate_chain L0 bc_fresh"
    using Blockchain_init_valid[OF bc_fresh_init] by simp
  show ?thesis
    using validate_integrity_report[of L0 vs_cast]
      validate_integrity_report[of L0 "vs_cast\<lparr>pending_votes := []\<rparr>"] v
    by (simp add: vs_cast_eq bc_fresh_votes vote_alice_def Let_def)
qed

subsection \<open>Serialization and loading\<close>

lemma validate_integrity_blockchain_valid:
  "blockchain_valid (validate_system_integrity L vs) = validate_chain L (blockchain vs)"
  by (simp add: validate_system_integrity_def Let_def)

lemma number_val_round [simp]: "as_number (number_val t) = Some t"
  by (cases t) simp_all

lemma Vote_round_trip: "Vote_ok v \<Longrightarrow> Vote_from_dict (Vote_to_dict v) = Inr v"
  by (simp add: Vote_ok_def Vote_from_dict_def Vote_to_dict_def has_key_def getitem_def Vote_init_def)

lemma Vote_from_dict_ok: "Vote_from_dict d = Inr v \<Longrightarrow> Vote_ok v"
  by (auto simp: Vote_from_dict_def Vote_init_def Vote_ok_def nonempty_str_Some
      split: pyval.splits if_splits sum.splits option.splits)

lemma map_exn_round_trip:
  "list_all (\<lambda>x. f (g x) = Inr x) xs \<Longrightarrow> map_exn f (map g xs) = Inr xs"
  by (induction xs) auto

lemma map_exn_all:
  "map_exn f xs = Inr ys \<Longrightarrow> (\<And>x y. f x = Inr y \<Longrightarrow> P y) \<Longrightarrow> list_all P ys"
  by (induction xs arbitrary: ys) (auto split: sum.splits)

lemma Votes_round_trip:
  "list_all Vote_ok vs \<Longrightarrow> map_exn Vote_from_dict (map Vote_to_dict vs) = Inr vs"
  by (rule map_exn_round_trip) (simp add: list_all_iff Vote_round_trip)

lemma Block_round_trip: "Block_ok b \<Longrightarrow> Block_from_dict L (Block_to_dict b) = Inr b"
  by (simp add: Block_ok_def Block_from_dict_def Block_to_dict_def has_key_def getitem_def
      Block_init_def Votes_round_trip)

lemma calculate_hash_nonempty [simp]: "calculate_hash L b \<noteq> []"
  using length_calculate_hash[of L b] by (metis list.size(3) zero_neq_numeral)

lemma Block_init_ok:
  "Block_init L i t vs p h = Inr b \<Longrightarrow> list_all Vote_ok vs \<Longrightarrow> Block_ok b"
  by (auto simp: Block_init_def Block_ok_def Let_def
      split: pyval.splits if_splits option.splits)

lemma Block_from_dict_Inr:
  "Block_from_dict L d = Inr b \<Longrightarrow>
     \<exists>i t p h items vs. map_exn Vote_from_dict items = Inr vs \<and> Block_init L i t vs p h = Inr b"
  by (simp add: Block_from_dict_def split: pyval.splits if_splits sum.splits) blast

lemma Block_from_dict_ok: "Block_from_dict L d = Inr b \<Longrightarrow> Block_ok b"
proof -
  assume "Block_from_dict L d = Inr b"
  then obtain i t p h items vs where
    *: "map_exn Vote_from_dict items = Inr vs" "Block_init L i t vs p h = Inr b"
    using Block_from_dict_Inr by blast
  have "list_all Vote_ok vs"
    using *(1) by (rule map_exn_all) (rule Vote_from_dict_ok)
  with *(2) show ?thesis by (rule Block_init_ok)
qed

lemma Blockchain_round_trip:
  "list_all Block_ok (chain bc) \<Longrightarrow> Blockchain_from_dict L (Blockchain_to_dict bc) = Inr bc"
  using map_exn_round_trip[of "Block_from_dict L" Block_to_dict "chain bc"]
  by (simp add: Blockchain_from_dict_def Blockchain_to_dict_def has_key_def getitem_def
      list_all_iff Block_round_trip)

lemma Blockchain_from_dict_Inr:
  "Blockchain_from_dict L d = Inr bc \<Longrightarrow> \<exists>items. map_exn (Block_from_dict L) items = Inr (chain bc)"
  by (auto simp: Blockchain_from_dict_def split: pyval.splits if_splits sum.splits)

lemma Blockchain_from_dict_ok:
  "Blockchain_from_dict L d = Inr bc \<Longrightarrow> list_all Block_ok (chain bc)"
proof -
  assume "Blockchain_from_dict L d = Inr bc"
  then obtain items where "map_exn (Block_from_dict L) items = Inr (chain bc)"
    using Blockchain_from_dict_Inr by blast
  then show ?thesis by (rule map_exn_all) (rule Block_from_dict_ok)
qed

lemma add_registered_strs:
  "[] \<notin> set rs \<Longrightarrow>
     add_registered (map PStr rs) vm
       = Inr (vm\<lparr>registered_voters := fset_of_list rs |\<union>| registered_voters vm\<rparr>)"
  by (induction rs arbitrary: vm) auto

lemma add_voted_strs:
  "[] \<notin> set vs \<Longrightarrow> fset_of_list vs |\<subseteq>| registered_voters vm \<Longrightarrow>
     add_voted (map PStr vs) vm = Inr (vm\<lparr>voted_voters := fset_of_list vs |\<union>| voted_voters vm\<rparr>)"
  by (induction vs arbitrary: vm) auto

lemma add_registered_ok:
  "add_registered xs vm = Inr vm' \<Longrightarrow>
     voted_voters vm' = voted_voters vm \<and> registered_voters vm |\<subseteq>| registered_voters vm'
     \<and> ([] |\<notin>| registered_voters vm \<longrightarrow> [] |\<notin>| registered_voters vm')"
proof (induction xs arbitrary: vm)
  case Nil
  then show ?case by simp
next
  case (Cons x xs)
  from Cons.prems obtain s where s: "x = PStr s" "s \<noteq> []"
      "add_registered xs (vm\<lparr>registered_voters := finsert s (registered_voters vm)\<rparr>) = Inr vm'"
    by (auto simp: nonempty_str_Some split: option.splits)
  from Cons.IH[OF s(3)] s(2) show ?case by auto
qed

lemma add_voted_ok:
  "add_voted xs vm = Inr vm' \<Longrightarrow>
     registered_voters vm' = registered_voters vm
     \<and> (voted_voters vm |\<subseteq>| registered_voters vm \<longrightarrow> voted_voters vm' |\<subseteq>| registered_voters vm')"
proof (induction xs arbitrary: vm)
  case Nil
  then show ?case by simp
next
  case (Cons x xs)
  from Cons.prems obtain s where s: "x = PStr s" "s \<noteq> []" "s |\<in>| registered_voters vm"
      "add_voted xs (vm\<lparr>voted_voters := finsert s (voted_voters vm)\<rparr>) = Inr vm'"
    by (auto simp: nonempty_str_Some split: option.splits if_splits)
  from Cons.IH[OF s(4)] s(3) show ?case by auto
qed

lemma VoterManager_round_trip:
  assumes "[] |\<notin>| registered_voters vm" "voted_voters vm |\<subseteq>| registered_voters vm"
    "fset_of_list (order (registered_voters vm)) = registered_voters vm"
    "fset_of_list (order (voted_voters vm)) = voted_voters vm"
  shows "VoterManager_from_dict (VoterManager_to_dict order vm) = Inr vm"
proof -
  have r: "[] \<notin> set (order (registered_voters vm))"
    using assms(1,3) by (metis fset_of_list.rep_eq)
  have v: "[] \<notin> set (order (voted_voters vm))"
    using assms(1,2,4) by (metis fset_of_list.rep_eq fsubsetD)
  show ?thesis
    using add_registered_strs[OF r, of VoterManager_init]
      add_voted_strs[OF v, of "VoterManager_init\<lparr>registered_voters := registered_voters vm\<rparr>"] assms
    by (simp add: VoterManager_from_dict_def VoterManager_to_dict_def has_key_def getitem_def
        VoterManager_init_def)
qed

lemma VoterManager_from_dict_Inr:
  "VoterManager_from_dict d = Inr vm \<Longrightarrow>
     \<exists>rs vs vm1. add_registered rs VoterManager_init = Inr vm1 \<and> add_voted vs vm1 = Inr vm"
  by (simp add: VoterManager_from_dict_def split: pyval.splits if_splits sum.splits) blast

lemma VoterManager_from_dict_ok:
  "VoterManager_from_dict d = Inr vm \<Longrightarrow>
     [] |\<notin>| registered_voters vm \<and> voted_voters vm |\<subseteq>| registered_voters vm"
proof -
  assume "VoterManager_from_dict d = Inr vm"
  then obtain rs vs vm1 where
    *: "add_registered rs VoterManager_init = Inr vm1" "add_voted vs vm1 = Inr vm"
    using VoterManager_from_dict_Inr by blast
  show ?thesis
    using add_registered_ok[OF *(1)] add_voted_ok[OF *(2)]
    by (auto simp: VoterManager_init_def)
qed

lemma round_trip_wf:
  assumes "wf_state vs" "enumerates order vs"
  shows "VotingSystem_from_dict L (VotingSystem_to_dict order vs) = Inr vs"
  using assms
  by (simp add: wf_state_def enumerates_def VotingSystem_from_dict_def VotingSystem_to_dict_def
      has_key_def getitem_def Blockchain_round_trip VoterManager_round_trip Votes_round_trip)

lemma VotingSystem_from_dict_Inr:
  "VotingSystem_from_dict L d = Inr vs \<Longrightarrow>
     \<exists>bd vd items. Blockchain_from_dict L bd = Inr (blockchain vs)
        \<and> VoterManager_from_dict vd = Inr (voter_manager vs)
        \<and> map_exn Vote_from_dict items = Inr (pending_votes vs)"
  by (simp add: VotingSystem_from_dict_def split: pyval.splits if_splits sum.splits) force

lemma VotingSystem_from_dict_wf:
  "VotingSystem_from_dict L d = Inr vs \<Longrightarrow> wf_state vs"
proof -
  assume "VotingSystem_from_dict L d = Inr vs"
  then obtain bd vd items where
    *: "Blockchain_from_dict L bd = Inr (blockchain vs)"
       "VoterManager_from_dict vd = Inr (voter_manager vs)"
       "map_exn Vote_from_dict items = Inr (pending_votes vs)"
    using VotingSystem_from_dict_Inr by blast
  have "list_all Vote_ok (pending_votes vs)"
    using *(3) by (rule map_exn_all) (rule Vote_from_dict_ok)
  then show ?thesis
    using Blockchain_from_dict_ok[OF *(1)] VoterManager_from_dict_ok[OF *(2)]
    by (simp add: wf_state_def)
qed

lemma wf_init: "VotingSystem_init L t0 = Inr vs \<Longrightarrow> wf_state vs \<and> validate_chain L (blockchain vs)"
proof -
  assume i: "VotingSystem_init L t0 = Inr vs"
  then obtain bc where bc: "Blockchain_init L t0 = Inr bc" "blockchain vs = bc"
    "voter_manager vs = VoterManager_init" "pending_votes vs = []"
    by (auto simp: VotingSystem_init_def split: sum.splits)
  then obtain g where g: "create_block L t0 0 [] (PStr (py ''0'')) = Inr g" "bc = \<lparr>chain = [g]\<rparr>"
    by (auto simp: Blockchain_init_Inr)
  have "Block_ok g" using g(1) unfolding create_block_def by (rule Block_init_ok) simp
  then show ?thesis using bc g(2) Blockchain_init_valid[OF bc(1)]
    by (simp add: wf_state_def VoterManager_init_def)
qed

lemma wf_register:
  assumes "register_voter v vs = (r, vs')" "wf_state vs"
  shows "wf_state vs'"
  using assms
  by (auto simp: register_voter_def vm_register_voter_def wf_state_def nonempty_str_Some
      split: option.splits if_splits)

lemma wf_cast:
  assumes "cast_vote now v c vs = (r, vs')" "wf_state vs"
  shows "wf_state vs'"
  using assms
  by (auto simp: cast_vote_def is_registered_def has_voted_def create_vote_def Vote_init_def
      mark_as_voted_def wf_state_def Vote_ok_def Let_def nonempty_str_Some
      split: option.splits if_splits sum.splits)

lemma wf_seal:
  assumes "create_block_from_pending_votes L now vs = (r, vs')" "wf_state vs"
  shows "wf_state vs'"
proof (cases "pending_votes vs = []")
  case True
  then show ?thesis using assms by (simp add: create_block_from_pending_votes_def)
next
  case False
  obtain ok bc where a: "add_block L now (pending_votes vs) (blockchain vs) = (ok, bc)"
    by (cases "add_block L now (pending_votes vs) (blockchain vs)")
  show ?thesis
  proof (cases ok)
    case True
    with a obtain nb where nb:
        "create_block L now (index (last (chain (blockchain vs))) + 1) (pending_votes vs)
           (hash (last (chain (blockchain vs)))) = Inr nb"
        "bc = (blockchain vs)\<lparr>chain := chain (blockchain vs) @ [nb]\<rparr>"
      by (auto simp: add_block_True)
    have "Block_ok nb"
      using Block_init_ok[OF nb(1)[unfolded create_block_def]] assms(2)
      by (simp add: wf_state_def)
    moreover have "vs' = vs\<lparr>blockchain := bc, pending_votes := []\<rparr>"
      using assms(1) a True False
      by (auto simp: create_block_from_pending_votes_def Let_def split: sum.splits)
    ultimately show ?thesis using assms(2) nb(2) by (simp add: wf_state_def)
  next
    case False
    with a have "bc = blockchain vs" by (simp add: add_block_False)
    then have "vs' = vs"
      using assms(1) a False \<open>pending_votes vs \<noteq> []\<close>
      by (simp add: create_block_from_pending_votes_def Let_def)
    then show ?thesis using assms(2) by simp
  qed
qed

lemma valid_seal:
  assumes "create_block_from_pending_votes L now vs = (r, vs')" "validate_chain L (blockchain vs)"
  shows "validate_chain L (blockchain vs')"
proof (cases "pending_votes vs = []")
  case True
  then show ?thesis using assms by (simp add: create_block_from_pending_votes_def)
next
  case False
  obtain ok bc where a: "add_block L now (pending_votes vs) (blockchain vs) = (ok, bc)"
    by (cases "add_block L now (pending_votes vs) (blockchain vs)")
  have b: "blockchain vs' = bc"
    using assms(1) a False
    by (cases ok) (auto simp: create_block_from_pending_votes_def Let_def split: sum.splits)
  have "add_blocks L [(now, pending_votes vs)] (blockchain vs) = (ok, bc)"
    using a by (cases ok) simp_all
  then have "validate_chain L bc"
    using add_blocks_valid[OF assms(2), of "[(now, pending_votes vs)]" bc] a assms(2)
    by (cases ok) (simp_all add: add_block_False)
  then show ?thesis using b by simp
qed

lemma replace_all_fields [simp]:
  "(vs :: VotingSystem)\<lparr>blockchain := blockchain x, voter_manager := voter_manager x,
      pending_votes := pending_votes x\<rparr> = x"
  by (cases vs, cases x) simp

lemma load_state_cases:
  "load_state L f vs = (r, vs') \<Longrightarrow>
     (vs' = vs \<and> (\<exists>e. r = Failure e))
     \<or> (\<exists>d. f = Parsed d \<and> VotingSystem_from_dict L d = Inr vs'
            \<and> validate_chain L (blockchain vs') \<and> r = Success (validate_system_integrity L vs'))"
  by (cases f)
     (auto simp: load_state_def Let_def validate_integrity_blockchain_valid split: sum.splits if_splits)

lemma reachable_inv: "reachable L vs \<Longrightarrow> wf_state vs \<and> validate_chain L (blockchain vs)"
proof (induction rule: reachable.induct)
  case (fresh t0 vs)
  then show ?case by (rule wf_init)
next
  case (call vs x)
  show ?case
  proof (rule step_cases[of x vs L])
    fix v r assume "x = Register v" "register_voter v vs = (r, step L x vs)"
    then show ?thesis using call.IH wf_register register_voter_vm by metis
  next
    fix now v c r assume "x = Cast now v c" "cast_vote now v c vs = (r, step L x vs)"
    then show ?thesis using call.IH wf_cast cast_vote_vm by metis
  next
    fix now r assume "x = Seal now" "create_block_from_pending_votes L now vs = (r, step L x vs)"
    then show ?thesis using call.IH wf_seal valid_seal by metis
  qed
next
  case (load vs f)
  obtain r vs' where l: "load_state L f vs = (r, vs')" by (cases "load_state L f vs")
  from load_state_cases[OF l] load.IH l show ?case
    by (auto dest: VotingSystem_from_dict_wf)
qed

text \<open>
  The round trip through dictionaries, without the text of the file in between. For
  every reachable state and every order in which the two sets are listed,
  \<open>from_dict\<close> of \<open>to_dict\<close> succeeds and returns the state itself: the same
  registered and voted sets, the same pending votes in the same order, the same
  blocks and ledger votes, and so the same report of \<open>validate_system_integrity\<close>; and
  \<open>load_state\<close>, when the parser hands it that very dictionary, succeeds and installs
  this state. What \<open>save_state\<close> writes and \<open>load_state\<close> reads is the text of the
  dictionary, which is the subject of the next subsection.
\<close>

theorem serialization_round_trip:
  assumes "reachable L vs" and "enumerates order vs"
  shows "\<exists>vs'. VotingSystem_from_dict L (VotingSystem_to_dict order vs) = Inr vs'
           \<and> registered_voters (voter_manager vs') = registered_voters (voter_manager vs)
           \<and> voted_voters (voter_manager vs') = voted_voters (voter_manager vs)
           \<and> pending_votes vs' = pending_votes vs
           \<and> get_block_count (blockchain vs') = get_block_count (blockchain vs)
           \<and> get_all_votes (blockchain vs') = get_all_votes (blockchain vs)
           \<and> validate_system_integrity L vs' = validate_system_integrity L vs
           \<and> vs' = vs
           \<and> load_state L (Parsed (VotingSystem_to_dict order vs)) other
                = (Success (validate_system_integrity L vs), vs)"
proof -
  have rt: "VotingSystem_from_dict L (VotingSystem_to_dict order vs) = Inr vs"
    using reachable_inv[OF assms(1)] assms(2) by (simp add: round_trip_wf)
  have "validate_chain L (blockchain vs)"
    using reachable_inv[OF assms(1)] by simp
  then have "load_state L (Parsed (VotingSystem_to_dict order vs)) other
                = (Success (validate_system_integrity L vs), vs)"
    using rt by (simp add: load_state_def Let_def validate_integrity_blockchain_valid)
  then show ?thesis using rt by simp
qed

lemma vs_cast_reachable: "reachable L0 vs_cast"
proof -
  have "reachable L0 vs_new" using vs_new_init by (rule reachable.fresh)
  then have "reachable L0 (step L0 (Register (PStr (py ''alice''))) vs_new)"
    by (rule reachable.call)
  then have "reachable L0 vs_alice" by (simp add: vs_alice_def vs_new_def)
  then have "reachable L0 (step L0 (Cast 2 (PStr (py ''alice'')) (PStr (py ''A''))) vs_alice)"
    by (rule reachable.call)
  then show ?thesis by (simp add: vs_cast_def)
qed

text \<open>The round trip at work on the system after \<open>alice\<close>'s vote, the sets listed in sorted order.\<close>

theorem serialization_round_trip_witness:
  "reachable L0 vs_cast \<and> enumerates sorted_list_of_fset vs_cast
   \<and> VotingSystem_from_dict L0 (VotingSystem_to_dict sorted_list_of_fset vs_cast) = Inr vs_cast
   \<and> load_state L0 (Parsed (VotingSystem_to_dict sorted_list_of_fset vs_cast)) vs_new
        = (Success (validate_system_integrity L0 vs_cast), vs_cast)"
proof -
  have e: "enumerates sorted_list_of_fset vs_cast" by (simp add: enumerates_def)
  show ?thesis
    using vs_cast_reachable e
      serialization_round_trip[OF vs_cast_reachable e, of vs_new]
    by auto
qed

text \<open>
  Claim C9 (loading validates, and is all or nothing). \<open>load_state\<close> answers
  \<open>FILE_NOT_FOUND\<close> when the file does not exist, \<open>LOAD_ERROR\<close> when reading or parsing
  raises or \<open>from_dict\<close> raises, and \<open>INVALID_BLOCKCHAIN\<close> when \<open>validate_chain\<close> rejects
  the decoded ledger; in each of these cases it returns the state it was given. Only
  when \<open>from_dict\<close> succeeds and \<open>validate_chain\<close> accepts the decoded ledger is the
  decoded state installed. So every failure leaves ledger, registry and pending votes
  as they were, and after every success the ledger is one that \<open>validate_chain\<close>
  accepts.
\<close>

theorem load_state_all_or_nothing:
  "(f = NoFile \<longrightarrow> load_state L f vs = (Failure FILE_NOT_FOUND, vs))
   \<and> (f = ReadError \<longrightarrow> load_state L f vs = (Failure LOAD_ERROR, vs))
   \<and> (f = Parsed d \<and> VotingSystem_from_dict L d = Inl e \<longrightarrow>
         load_state L f vs = (Failure LOAD_ERROR, vs))
   \<and> (f = Parsed d \<and> VotingSystem_from_dict L d = Inr ls \<and> \<not> validate_chain L (blockchain ls) \<longrightarrow>
         load_state L f vs = (Failure INVALID_BLOCKCHAIN, vs))
   \<and> (f = Parsed d \<and> VotingSystem_from_dict L d = Inr ls \<and> validate_chain L (blockchain ls) \<longrightarrow>
         load_state L f vs = (Success (validate_system_integrity L ls), ls))
   \<and> (\<forall>c. fst (load_state L f vs) = Failure c \<longrightarrow> snd (load_state L f vs) = vs)
   \<and> (\<forall>rep. fst (load_state L f vs) = Success rep \<longrightarrow>
         validate_chain L (blockchain (snd (load_state L f vs))))"
proof -
  obtain r vs' where l: "load_state L f vs = (r, vs')" by (cases "load_state L f vs")
  have fail: "\<forall>c. fst (load_state L f vs) = Failure c \<longrightarrow> snd (load_state L f vs) = vs"
    using load_state_cases[OF l] l by auto
  have succ: "\<forall>rep. fst (load_state L f vs) = Success rep \<longrightarrow>
                validate_chain L (blockchain (snd (load_state L f vs)))"
    using load_state_cases[OF l] l by auto
  have "f = NoFile \<longrightarrow> load_state L f vs = (Failure FILE_NOT_FOUND, vs)"
    and "f = ReadError \<longrightarrow> load_state L f vs = (Failure LOAD_ERROR, vs)"
    and "f = Parsed d \<and> VotingSystem_from_dict L d = Inl e \<longrightarrow>
           load_state L f vs = (Failure LOAD_ERROR, vs)"
    and "f = Parsed d \<and> VotingSystem_from_dict L d = Inr ls \<and> \<not> validate_chain L (blockchain ls) \<longrightarrow>
           load_state L f vs = (Failure INVALID_BLOCKCHAIN, vs)"
    and "f = Parsed d \<and> VotingSystem_from_dict L d = Inr ls \<and> validate_chain L (blockchain ls) \<longrightarrow>
           load_state L f vs = (Success (validate_system_integrity L ls), ls)"
    by (simp_all add: load_state_def Let_def validate_integrity_blockchain_valid)
  with fail succ show ?thesis by blast
qed

text \<open>
  The theorem at work: a missing file, a file that cannot be read, a document that is
  not a dictionary, a document with an empty chain, and the document of \<open>vs_cast\<close>,
  each loaded into \<open>vs_alice\<close>.
\<close>

theorem load_state_all_or_nothing_witness:
  "load_state L0 NoFile vs_alice = (Failure FILE_NOT_FOUND, vs_alice)
   \<and> load_state L0 ReadError vs_alice = (Failure LOAD_ERROR, vs_alice)
   \<and> VotingSystem_from_dict L0 PNone = Inl TypeError
   \<and> load_state L0 (Parsed PNone) vs_alice = (Failure LOAD_ERROR, vs_alice)
   \<and> VotingSystem_from_dict L0 doc_empty_chain = Inr vs_empty_chain
   \<and> \<not> validate_chain L0 (blockchain vs_empty_chain)
   \<and> load_state L0 (Parsed doc_empty_chain) vs_alice = (Failure INVALID_BLOCKCHAIN, vs_alice)
   \<and> VotingSystem_from_dict L0 (VotingSystem_to_dict sorted_list_of_fset vs_cast) = Inr vs_cast
   \<and> validate_chain L0 (blockchain vs_cast)
   \<and> load_state L0 (Parsed (VotingSystem_to_dict sorted_list_of_fset vs_cast)) vs_alice
        = (Success (validate_system_integrity L0 vs_cast), vs_cast)"
proof -
  have a: "VotingSystem_from_dict L0 PNone = Inl TypeError"
    by (simp add: VotingSystem_from_dict_def)
  have b: "VotingSystem_from_dict L0 doc_empty_chain = Inr vs_empty_chain"
    by (rule from_dict_empty_chain)
  have c: "\<not> validate_chain L0 (blockchain vs_empty_chain)"
    by (simp add: validate_chain_def vs_empty_chain_def)
  have d: "VotingSystem_from_dict L0 (VotingSystem_to_dict sorted_list_of_fset vs_cast) = Inr vs_cast"
    using reachable_inv[OF vs_cast_reachable] by (simp add: round_trip_wf enumerates_def)
  have e: "validate_chain L0 (blockchain vs_cast)"
    using reachable_inv[OF vs_cast_reachable] by simp
  show ?thesis
    using a b c d e
      load_state_all_or_nothing[where f = NoFile and L = L0 and vs = vs_alice]
      load_state_all_or_nothing[where f = ReadError and L = L0 and vs = vs_alice]
      load_state_all_or_nothing[where f = "Parsed PNone" and d = PNone and L = L0
        and e = TypeError and vs = vs_alice]
      load_state_all_or_nothing[where f = "Parsed doc_empty_chain" and d = doc_empty_chain
        and L = L0 and ls = vs_empty_chain and vs = vs_alice]
      load_state_all_or_nothing[where f = "Parsed (VotingSystem_to_dict sorted_list_of_fset vs_cast)"
        and d = "VotingSystem_to_dict sorted_list_of_fset vs_cast" and L = L0 and ls = vs_cast
        and vs = vs_alice]
    by simp
qed

subsection \<open>The text of a saved state\<close>

lemma vs_two_eq:
  "vs_two = \<lparr>blockchain = bc_fresh,
              voter_manager = \<lparr>registered_voters = {|py ''alice'', py ''bob''|}, voted_voters = {||}\<rparr>,
              pending_votes = []\<rparr>"
proof -
  have e: "vs_alice = \<lparr>blockchain = bc_fresh,
          voter_manager = \<lparr>registered_voters = {|py ''alice''|}, voted_voters = {||}\<rparr>,
          pending_votes = []\<rparr>"
    using vs_alice_vm vs_alice_blockchain by (cases vs_alice) simp
  show ?thesis
    unfolding vs_two_def e
    by (auto simp: register_voter_def vm_register_voter_def)
qed

lemma order_enumerates:
  "fset_of_list (order_ab S) = S" "fset_of_list (order_ba S) = S"
  by (auto simp: order_ab_def order_ba_def)

lemma vs_two_reachable: "reachable L0 vs_two"
proof -
  have "reachable L0 vs_new" using vs_new_init by (rule reachable.fresh)
  then have "reachable L0 (step L0 (Register (PStr (py ''alice''))) vs_new)"
    by (rule reachable.call)
  then have "reachable L0 vs_alice" by (simp add: vs_alice_def vs_new_def)
  then have "reachable L0 (step L0 (Register (PStr (py ''bob''))) vs_alice)"
    by (rule reachable.call)
  then show ?thesis by (simp add: vs_two_def)
qed

text \<open>
  Claim C8, the code at the failing input. The same reachable state, with \<open>alice\<close> and
  \<open>bob\<close> registered, is written by \<open>save_state\<close> as two different texts when its set
  of registered voters is listed in two different orders: \<open>to_dict\<close> does not sort the
  ids, so the text is not determined by the logical state.
\<close>

theorem serialization_depends_on_set_order:
  "reachable L0 vs_two
   \<and> fset_of_list (order_ab (registered_voters (voter_manager vs_two)))
       = fset_of_list (order_ba (registered_voters (voter_manager vs_two)))
   \<and> state_text L0 order_ab vs_two \<noteq> state_text L0 order_ba vs_two"
proof -
  have "state_text L0 order_ab vs_two \<noteq> state_text L0 order_ba vs_two"
    by (simp add: state_text_def dumps_def VotingSystem_to_dict_def vs_two_eq pretty_def
        VoterManager_to_dict_def order_ab_def order_ba_def newline_indent_def
        encode_basestring_ascii_def escape_char_def)
  then show ?thesis
    using vs_two_reachable by (simp add: order_enumerates)
qed

lemma vs_astral_eq:
  "vs_astral = \<lparr>blockchain = bc_fresh,
                 voter_manager = \<lparr>registered_voters = {|[0x1F600]|}, voted_voters = {||}\<rparr>,
                 pending_votes = []\<rparr>"
  unfolding vs_astral_def vs_new_eq
  by (simp add: register_voter_def vm_register_voter_def VoterManager_init_def)

lemma vs_surrogates_eq:
  "vs_surrogates = \<lparr>blockchain = bc_fresh,
                     voter_manager = \<lparr>registered_voters = {|[0xD83D, 0xDE00]|}, voted_voters = {||}\<rparr>,
                     pending_votes = []\<rparr>"
  unfolding vs_surrogates_def vs_new_eq
  by (simp add: register_voter_def vm_register_voter_def VoterManager_init_def)

lemma sorted_list_single: "sorted_list_of_fset {|x|} = [x]"
  by (simp add: sorted_list_of_fset.rep_eq)

lemma surrogate_pair_text:
  "encode_basestring_ascii [0x1F600] = encode_basestring_ascii [0xD83D, 0xDE00]"
  by (simp add: encode_basestring_ascii_def escape_char_def Let_def)

text \<open>
  Claim C7, the code at the failing input. On a fresh system, registering the id made
  of the code point \<open>0x1F600\<close> and registering the id made of the two code points
  \<open>0xD83D\<close>, \<open>0xDE00\<close> both succeed and give two reachable states with different sets
  of registered ids. \<open>save_state\<close> writes the same text for the two states (each set
  has one element, so there is one order to list it in), because \<open>json\<close> writes the
  two ids as the same escapes. Whatever \<open>load_state\<close> reads back from that text, it is
  the same for both: the round trip through the file cannot return the registered
  set of each.
\<close>

theorem saved_text_collision:
  "register_voter (PStr [0x1F600]) vs_new = (Success (PStr [0x1F600]), vs_astral)
   \<and> register_voter (PStr [0xD83D, 0xDE00]) vs_new = (Success (PStr [0xD83D, 0xDE00]), vs_surrogates)
   \<and> reachable L0 vs_astral \<and> reachable L0 vs_surrogates
   \<and> get_registered_voters (voter_manager vs_astral) = [[0x1F600]]
   \<and> get_registered_voters (voter_manager vs_surrogates) = [[0xD83D, 0xDE00]]
   \<and> registered_voters (voter_manager vs_astral) \<noteq> registered_voters (voter_manager vs_surrogates)
   \<and> state_text L0 sorted_list_of_fset vs_astral = state_text L0 sorted_list_of_fset vs_surrogates"
proof -
  have n: "reachable L0 vs_new" using vs_new_init by (rule reachable.fresh)
  have "reachable L0 (step L0 (Register (PStr [0x1F600])) vs_new)"
    using n by (rule reachable.call)
  then have ra: "reachable L0 vs_astral" by (simp add: vs_astral_def)
  have "reachable L0 (step L0 (Register (PStr [0xD83D, 0xDE00])) vs_new)"
    using n by (rule reachable.call)
  then have rs: "reachable L0 vs_surrogates" by (simp add: vs_surrogates_def)
  have a: "register_voter (PStr [0x1F600]) vs_new = (Success (PStr [0x1F600]), vs_astral)"
    unfolding vs_astral_def vs_new_eq
    by (simp add: register_voter_def vm_register_voter_def VoterManager_init_def)
  have s: "register_voter (PStr [0xD83D, 0xDE00]) vs_new
           = (Success (PStr [0xD83D, 0xDE00]), vs_surrogates)"
    unfolding vs_surrogates_def vs_new_eq
    by (simp add: register_voter_def vm_register_voter_def VoterManager_init_def)
  have t: "state_text L0 sorted_list_of_fset vs_astral
           = state_text L0 sorted_list_of_fset vs_surrogates"
    using surrogate_pair_text
    by (simp add: state_text_def dumps_def VotingSystem_to_dict_def vs_astral_eq
        vs_surrogates_eq pretty_def VoterManager_to_dict_def newline_indent_def
        sorted_list_single)
  show ?thesis
    using a s ra rs t
    by (simp add: vs_astral_eq vs_surrogates_eq get_registered_voters_def sorted_list_single)
qed

subsection \<open>The canonical text and the digest of a block\<close>

lemma distinct_hexdigits: "distinct ''0123456789abcdef''"
  by simp

lemma hexdigit_inj: "a < 16 \<Longrightarrow> b < 16 \<Longrightarrow> hexdigit a = hexdigit b \<Longrightarrow> a = b"
  unfolding hexdigit_def
  using nth_eq_iff_index_eq[OF distinct_hexdigits, of a b] by simp

lemma hex_fixed_inj: "hex_fixed k n = hex_fixed k m \<Longrightarrow> n mod 16 ^ k = m mod 16 ^ k"
proof (induction k arbitrary: n m)
  case 0
  then show ?case by simp
next
  case (Suc k)
  from Suc.prems have a: "hex_fixed k (n div 16) = hex_fixed k (m div 16)"
    and b: "hexdigit (n mod 16) = hexdigit (m mod 16)"
    by simp_all
  have "n mod 16 = m mod 16" using hexdigit_inj[OF _ _ b] by simp
  moreover have "(n div 16) mod 16 ^ k = (m div 16) mod 16 ^ k" using Suc.IH[OF a] .
  ultimately show ?case
    by (simp add: mod_mult2_eq)
qed

lemma hex4_inj:
  assumes "n < 65536" "m < 65536" "hex_fixed 4 n = hex_fixed 4 m"
  shows "n = m"
proof -
  have "n mod 16 ^ 4 = m mod 16 ^ 4" using assms(3) by (rule hex_fixed_inj)
  then show ?thesis using assms(1,2) by simp
qed

lemma hexdigest_inj: "hexdigest a = hexdigest b \<Longrightarrow> a = b"
proof -
  assume "hexdigest a = hexdigest b"
  then have "unat a mod 16 ^ 64 = unat b mod 16 ^ 64"
    unfolding hexdigest_def by (rule hex_fixed_inj)
  moreover have "unat a < 16 ^ 64" "unat b < 16 ^ 64"
    using unsigned_less[of a] unsigned_less[of b] by simp_all
  ultimately have "unat a = unat b" by simp
  then show ?thesis by (simp add: word_unat_eq_iff)
qed

lemma py_inj: "py s = py t \<Longrightarrow> s = t"
proof -
  have "inj (of_char :: char \<Rightarrow> nat)" by (rule injI) simp
  then show "py s = py t \<Longrightarrow> s = t" by (simp add: inj_map_eq_map)
qed

lemma distinct_digits: "distinct ''0123456789''"
  by simp

lemma digit_char_inj: "a < 10 \<Longrightarrow> b < 10 \<Longrightarrow> digit_char a = digit_char b \<Longrightarrow> a = b"
  unfolding digit_char_def
  using nth_eq_iff_index_eq[OF distinct_digits, of a b] by simp

lemma digit_char_in: "digit_char d \<in> set ''0123456789''"
proof -
  have "d mod 10 < length ''0123456789''" by simp
  then show ?thesis unfolding digit_char_def by (rule nth_mem)
qed

lemma decimal_nonempty: "decimal n \<noteq> []"
  by (subst decimal.simps) simp

lemma set_decimal: "set (decimal n) \<subseteq> set ''0123456789''"
proof (induction n rule: decimal.induct)
  case (1 n)
  show ?case
  proof (cases "n < 10")
    case True
    then show ?thesis using digit_char_in[of n] by (subst decimal.simps) simp
  next
    case False
    then show ?thesis using 1 digit_char_in[of "n mod 10"] by (subst decimal.simps) simp
  qed
qed

lemma decimal_inj: "decimal n = decimal m \<Longrightarrow> n = m"
proof (induction n arbitrary: m rule: decimal.induct)
  case (1 n)
  show ?case
  proof (cases "n < 10")
    case n: True
    show ?thesis
    proof (cases "m < 10")
      case True
      then show ?thesis using "1.prems" n digit_char_inj[of n m]
        by (simp add: decimal.simps[of n] decimal.simps[of m])
    next
      case False
      then show ?thesis using "1.prems" n decimal_nonempty[of "m div 10"]
        by (simp add: decimal.simps[of n] decimal.simps[of m])
    qed
  next
    case n: False
    show ?thesis
    proof (cases "m < 10")
      case True
      then show ?thesis using "1.prems" n decimal_nonempty[of "n div 10"]
        by (simp add: decimal.simps[of n] decimal.simps[of m])
    next
      case False
      then have "decimal (n div 10) = decimal (m div 10)"
        and d: "digit_char (n mod 10) = digit_char (m mod 10)"
        using "1.prems" n by (simp_all add: decimal.simps[of n] decimal.simps[of m])
      then have "n div 10 = m div 10" using "1.IH"[OF n] by simp
      moreover have "n mod 10 = m mod 10" using digit_char_inj[OF _ _ d] by simp
      ultimately show ?thesis by (metis div_mult_mod_eq)
    qed
  qed
qed

lemma int_repr_inj: "int_repr i = int_repr j \<Longrightarrow> i = j"
proof -
  assume e: "int_repr i = int_repr j"
  have nd: "CHR ''-'' \<notin> set (decimal n)" for n
    using set_decimal[of n] by auto
  have hd: "hd (decimal n) \<noteq> CHR ''-''" for n
    using nd[of n] decimal_nonempty[of n] by (cases "decimal n") auto
  show ?thesis
  proof (cases "i < 0")
    case i: True
    show ?thesis
    proof (cases "j < 0")
      case True
      then have "nat (- i) = nat (- j)" using e i by (simp add: int_repr_def decimal_inj)
      then show ?thesis using i True by simp
    next
      case False
      then show ?thesis using e i hd[of "nat j"]
        by (auto simp: int_repr_def dest: arg_cong[where f = hd])
    qed
  next
    case i: False
    show ?thesis
    proof (cases "j < 0")
      case True
      then show ?thesis using e i hd[of "nat i"]
        by (auto simp: int_repr_def dest: arg_cong[where f = hd])
    next
      case False
      then have "nat i = nat j" using e i by (simp add: int_repr_def decimal_inj)
      then show ?thesis using i False by simp
    qed
  qed
qed

lemma comma_notin_decimal: "CHR '','' \<notin> set (decimal n)"
  using set_decimal[of n] by auto

lemma comma_notin_int_repr: "CHR '','' \<notin> set (int_repr i)"
  by (simp add: int_repr_def comma_notin_decimal)

lemma char_of_inj:
  fixes a b :: nat
  assumes "a < 256" "b < 256" "(char_of a :: char) = char_of b"
  shows "a = b"
proof -
  have "(of_char (char_of a :: char) :: nat) = of_char (char_of b :: char)"
    using assms(3) by simp
  then have "a mod 256 = b mod 256" by (simp only: of_char_of)
  then show ?thesis using assms(1,2) by simp
qed

lemma hex4_append_inj:
  assumes "n < 65536" "m < 65536" "hex_fixed 4 n @ r = hex_fixed 4 m @ r'"
  shows "n = m \<and> r = r'"
proof -
  have "hex_fixed 4 n = hex_fixed 4 m \<and> r = r'" using assms(3) by simp
  then show ?thesis using hex4_inj[OF assms(1,2)] by simp
qed

lemma escape_plain:
  "0x20 \<le> c \<Longrightarrow> c \<le> 0x7E \<Longrightarrow> c \<noteq> 0x22 \<Longrightarrow> c \<noteq> 0x5C \<Longrightarrow> escape_char c = [char_of c]"
  by (simp add: escape_char_def)

lemma escape_bmp:
  assumes "c < 0x10000" "c < 0x20 \<or> 0x7E < c" "c \<noteq> 0x08" "c \<noteq> 0x0C" "c \<noteq> 0x0A" "c \<noteq> 0x0D" "c \<noteq> 0x09"
  shows "escape_char c = BS # CHR ''u'' # hex_fixed 4 c"
proof -
  have "c \<noteq> 0x5C" "c \<noteq> 0x22" "\<not> (0x20 \<le> c \<and> c \<le> 0x7E)" using assms(2) by auto
  then show ?thesis using assms by (simp add: escape_char_def)
qed

lemma escape_astral:
  assumes "0x10000 \<le> c"
  shows "escape_char c = BS # CHR ''u'' # hex_fixed 4 (0xD800 + ((c - 0x10000) div 0x400) mod 0x400)
            @ BS # CHR ''u'' # hex_fixed 4 (0xDC00 + (c - 0x10000) mod 0x400)"
proof -
  have "c \<noteq> 0x5C" "c \<noteq> 0x22" "\<not> (0x20 \<le> c \<and> c \<le> 0x7E)" "c \<noteq> 0x08" "c \<noteq> 0x0C"
    "c \<noteq> 0x0A" "c \<noteq> 0x0D" "c \<noteq> 0x09" "\<not> c < 0x10000"
    using assms by auto
  then show ?thesis by (simp add: escape_char_def Let_def)
qed

lemma char_of_not_BS:
  fixes c :: nat
  assumes "c < 256" "c \<noteq> 0x5C"
  shows "(char_of c :: char) \<noteq> BS"
proof
  assume e: "(char_of c :: char) = BS"
  have "(of_char (char_of c :: char) :: nat) = c mod 256" by (rule of_char_of)
  moreover have "(of_char BS :: nat) = 0x5C" by simp
  ultimately have "c mod 256 = 0x5C" using e by simp
  then show False using assms by simp
qed

lemma char_of_not_DQ:
  fixes c :: nat
  assumes "c < 256" "c \<noteq> 0x22"
  shows "(char_of c :: char) \<noteq> DQ"
proof
  assume e: "(char_of c :: char) = DQ"
  have "(of_char (char_of c :: char) :: nat) = c mod 256" by (rule of_char_of)
  moreover have "(of_char DQ :: nat) = 0x22" by simp
  ultimately have "c mod 256 = 0x22" using e by simp
  then show False using assms by simp
qed

lemma classes: "is_plain c \<or> is_short c \<or> is_bmp c \<or> 0x10000 \<le> c"
  by (auto simp: is_bmp_def)

lemma plain_form: "is_plain c \<Longrightarrow> \<exists>x. escape_char c = [x] \<and> x \<noteq> BS \<and> x \<noteq> DQ \<and> x = char_of c"
  using char_of_not_BS[of c] char_of_not_DQ[of c]
  by (simp add: is_plain_def escape_plain)

lemma short_form: "is_short c \<Longrightarrow> \<exists>y. escape_char c = [BS, y] \<and> y \<noteq> CHR ''u''"
  by (auto simp: is_short_def escape_char_def)

lemma short_inj: "is_short c \<Longrightarrow> is_short c' \<Longrightarrow> escape_char c = escape_char c' \<Longrightarrow> c = c'"
  by (auto simp: is_short_def escape_char_def)

lemma bmp_form: "is_bmp c \<Longrightarrow> escape_char c = BS # CHR ''u'' # hex_fixed 4 c"
proof -
  assume b: "is_bmp c"
  then have "c < 0x20 \<or> 0x7E < c"
    by (auto simp: is_bmp_def is_plain_def is_short_def)
  then show ?thesis using b
    by (intro escape_bmp) (auto simp: is_bmp_def is_short_def)
qed

lemma astral_form:
  "0x10000 \<le> c \<Longrightarrow>
     escape_char c = BS # CHR ''u'' # hex_fixed 4 (hi_surrogate c) @ BS # CHR ''u'' # hex_fixed 4 (lo_surrogate c)"
  by (simp add: escape_astral hi_surrogate_def lo_surrogate_def)

lemma surrogate_bounds:
  "0xD800 \<le> hi_surrogate c" "hi_surrogate c \<le> 0xDBFF" "0xDC00 \<le> lo_surrogate c" "lo_surrogate c \<le> 0xDFFF"
proof -
  have a: "((c - 0x10000) div 0x400) mod 0x400 < 0x400" by simp
  have b: "(c - 0x10000) mod 0x400 < 0x400" by simp
  show "0xD800 \<le> hi_surrogate c" "hi_surrogate c \<le> 0xDBFF"
    using a unfolding hi_surrogate_def by linarith+
  show "0xDC00 \<le> lo_surrogate c" "lo_surrogate c \<le> 0xDFFF"
    using b unfolding lo_surrogate_def by linarith+
qed

lemma surrogates_inj:
  assumes "0x10000 \<le> c" "c < 0x110000" "0x10000 \<le> c'" "c' < 0x110000"
    "hi_surrogate c = hi_surrogate c'" "lo_surrogate c = lo_surrogate c'"
  shows "c = c'"
proof -
  let ?n = "c - 0x10000" and ?m = "c' - 0x10000"
  have "?n div 0x400 < 0x400" "?m div 0x400 < 0x400" using assms(2,4) by simp_all
  then have "?n div 0x400 = ?m div 0x400"
    using assms(5) by (simp add: hi_surrogate_def)
  moreover have "?n mod 0x400 = ?m mod 0x400"
    using assms(6) by (simp add: lo_surrogate_def)
  ultimately have "?n = ?m" by (metis div_mult_mod_eq)
  then show ?thesis using assms(1,3) by simp
qed

lemma nonplain_form: "\<not> is_plain c \<Longrightarrow> \<exists>t. escape_char c = BS # t"
  using classes[of c] short_form[of c] bmp_form[of c] astral_form[of c] by auto

lemma long_form: "is_bmp c \<or> 0x10000 \<le> c \<Longrightarrow> \<exists>t. escape_char c = BS # CHR ''u'' # t"
  using bmp_form[of c] astral_form[of c] by auto

lemma escape_not_DQ: "\<exists>x t. escape_char c = x # t \<and> x \<noteq> DQ"
proof (cases "is_plain c")
  case True
  then show ?thesis using plain_form[of c] by auto
next
  case False
  then show ?thesis using nonplain_form[of c] by auto
qed

lemma class_exclusive:
  "is_plain c \<Longrightarrow> \<not> is_short c \<and> \<not> is_bmp c \<and> c < 0x10000"
  "is_short c \<Longrightarrow> \<not> is_bmp c \<and> c < 0x10000"
  "is_bmp c \<Longrightarrow> c < 0x10000"
  by (auto simp: is_plain_def is_short_def is_bmp_def)

lemma escape_char_prefix:
  assumes c: "scalar c" and c': "scalar c'" and e: "escape_char c @ r = escape_char c' @ r'"
  shows "c = c' \<and> r = r'"
proof -
  consider (plain) "is_plain c" | (short) "is_short c" | (bmp) "is_bmp c" | (astral) "0x10000 \<le> c"
    using classes[of c] by blast
  then show ?thesis
  proof cases
    case plain
    then obtain x where x: "escape_char c = [x]" "x \<noteq> BS" "x = char_of c"
      using plain_form by blast
    have p': "is_plain c'"
    proof (rule ccontr)
      assume "\<not> is_plain c'"
      then obtain t where "escape_char c' = BS # t" using nonplain_form by blast
      then show False using e x by simp
    qed
    then obtain x' where x': "escape_char c' = [x']" "x' = char_of c'"
      using plain_form by blast
    have "x = x'" "r = r'" using e x x' by simp_all
    moreover have "c < 256" "c' < 256" using plain p' by (simp_all add: is_plain_def)
    ultimately show ?thesis using x(3) x'(2) char_of_inj[of c c'] by simp
  next
    case short
    then obtain y where y: "escape_char c = [BS, y]" "y \<noteq> CHR ''u''"
      using short_form by blast
    have np: "\<not> is_plain c'"
    proof
      assume "is_plain c'"
      then obtain x' where "escape_char c' = [x']" "x' \<noteq> BS" using plain_form by blast
      then show False using e y by simp
    qed
    have s': "is_short c'"
    proof (rule ccontr)
      assume "\<not> is_short c'"
      then have "is_bmp c' \<or> 0x10000 \<le> c'" using classes[of c'] np by blast
      then obtain t where "escape_char c' = BS # CHR ''u'' # t" using long_form by blast
      then show False using e y by simp
    qed
    then obtain y' where y': "escape_char c' = [BS, y']" using short_form by blast
    have "y = y'" "r = r'" using e y y' by simp_all
    then have "escape_char c = escape_char c'" using y y' by simp
    then show ?thesis using short_inj[OF short s'] \<open>r = r'\<close> by simp
  next
    case bmp
    then have f: "escape_char c = BS # CHR ''u'' # hex_fixed 4 c" and lt: "c < 0x10000"
      using bmp_form class_exclusive(3) by blast+
    have np: "\<not> is_plain c'"
    proof
      assume "is_plain c'"
      then obtain x' where "escape_char c' = [x']" "x' \<noteq> BS" using plain_form by blast
      then show False using e f by simp
    qed
    have ns: "\<not> is_short c'"
    proof
      assume "is_short c'"
      then obtain y' where "escape_char c' = [BS, y']" "y' \<noteq> CHR ''u''" using short_form by blast
      then show False using e f by simp
    qed
    show ?thesis
    proof (cases "is_bmp c'")
      case True
      then have f': "escape_char c' = BS # CHR ''u'' # hex_fixed 4 c'" and lt': "c' < 0x10000"
        using bmp_form class_exclusive(3) by blast+
      have "hex_fixed 4 c @ r = hex_fixed 4 c' @ r'" using e f f' by simp
      then show ?thesis by (rule hex4_append_inj[OF lt lt'])
    next
      case False
      then have a': "0x10000 \<le> c'" using classes[of c'] np ns by blast
      have "hex_fixed 4 c @ r = hex_fixed 4 (hi_surrogate c')
              @ (BS # CHR ''u'' # hex_fixed 4 (lo_surrogate c') @ r')"
        using e f astral_form[OF a'] by simp
      moreover have "hi_surrogate c' < 0x10000" using surrogate_bounds(2)[of c'] by simp
      ultimately have "c = hi_surrogate c'" using hex4_append_inj[OF lt] by blast
      then have "0xD800 \<le> c \<and> c \<le> 0xDFFF"
        using surrogate_bounds(1,2)[of c'] by simp
      then show ?thesis using c by (simp add: scalar_def)
    qed
  next
    case astral
    note f = astral_form[OF astral]
    have np: "\<not> is_plain c'"
    proof
      assume "is_plain c'"
      then obtain x' where "escape_char c' = [x']" "x' \<noteq> BS" using plain_form by blast
      then show False using e f by simp
    qed
    have ns: "\<not> is_short c'"
    proof
      assume "is_short c'"
      then obtain y' where "escape_char c' = [BS, y']" "y' \<noteq> CHR ''u''" using short_form by blast
      then show False using e f by simp
    qed
    have hlt: "hi_surrogate c < 0x10000" "lo_surrogate c < 0x10000"
      using surrogate_bounds(2,4)[of c] by simp_all
    show ?thesis
    proof (cases "is_bmp c'")
      case True
      then have f': "escape_char c' = BS # CHR ''u'' # hex_fixed 4 c'" and lt': "c' < 0x10000"
        using bmp_form class_exclusive(3) by blast+
      have "hex_fixed 4 c' @ r' = hex_fixed 4 (hi_surrogate c)
              @ (BS # CHR ''u'' # hex_fixed 4 (lo_surrogate c) @ r)"
        using e f f' by simp
      then have "c' = hi_surrogate c" using hex4_append_inj[OF lt' hlt(1)] by blast
      then have "0xD800 \<le> c' \<and> c' \<le> 0xDFFF"
        using surrogate_bounds(1,2)[of c] by simp
      then show ?thesis using c' by (simp add: scalar_def)
    next
      case False
      then have a': "0x10000 \<le> c'" using classes[of c'] np ns by blast
      have hlt': "hi_surrogate c' < 0x10000" "lo_surrogate c' < 0x10000"
        using surrogate_bounds(2,4)[of c'] by simp_all
      have "hex_fixed 4 (hi_surrogate c) @ (BS # CHR ''u'' # hex_fixed 4 (lo_surrogate c) @ r)
            = hex_fixed 4 (hi_surrogate c') @ (BS # CHR ''u'' # hex_fixed 4 (lo_surrogate c') @ r')"
        using e f astral_form[OF a'] by simp
      then have h: "hi_surrogate c = hi_surrogate c'"
        and "hex_fixed 4 (lo_surrogate c) @ r = hex_fixed 4 (lo_surrogate c') @ r'"
        using hex4_append_inj[OF hlt(1) hlt'(1)] by blast+
      then have l: "lo_surrogate c = lo_surrogate c'" and "r = r'"
        using hex4_append_inj[OF hlt(2) hlt'(2)] by blast+
      have "c = c'"
        using surrogates_inj[OF astral _ a' _ h l] c c' by (simp add: scalar_def)
      then show ?thesis using \<open>r = r'\<close> by simp
    qed
  qed
qed

lemma concat_escape_prefix:
  "well_formed s \<Longrightarrow> well_formed s' \<Longrightarrow>
     concat (map escape_char s) @ DQ # r = concat (map escape_char s') @ DQ # r' \<Longrightarrow>
     s = s' \<and> r = r'"
proof (induction s arbitrary: s')
  case Nil
  show ?case
  proof (cases s')
    case Nil
    then show ?thesis using Nil.prems by simp
  next
    case (Cons c' t')
    obtain x t where "escape_char c' = x # t" "x \<noteq> DQ" using escape_not_DQ by blast
    then show ?thesis using Nil.prems Cons by simp
  qed
next
  case (Cons c t)
  show ?case
  proof (cases s')
    case Nil
    obtain x u where "escape_char c = x # u" "x \<noteq> DQ" using escape_not_DQ by blast
    then show ?thesis using Cons.prems Nil by simp
  next
    case (Cons c' t')
    have sc: "scalar c" "scalar c'" "well_formed t" "well_formed t'"
      using Cons.prems(1,2) Cons by (simp_all add: well_formed_def)
    have "escape_char c @ (concat (map escape_char t) @ DQ # r)
          = escape_char c' @ (concat (map escape_char t') @ DQ # r')"
      using Cons.prems(3) Cons by simp
    then have "c = c'" and "concat (map escape_char t) @ DQ # r = concat (map escape_char t') @ DQ # r'"
      using escape_char_prefix[OF sc(1,2)] by blast+
    then show ?thesis using Cons.IH[OF sc(3,4)] Cons by simp
  qed
qed

lemma encode_basestring_prefix:
  assumes "well_formed s" "well_formed s'"
    "encode_basestring_ascii s @ r = encode_basestring_ascii s' @ r'"
  shows "s = s' \<and> r = r'"
  using concat_escape_prefix[OF assms(1,2), of r r'] assms(3)
  by (simp add: encode_basestring_ascii_def)

lemma iterencode_number: "iterencode L cfg lvl (number_val t) = num_text L t"
  by (cases t) (simp_all add: num_text_def)

lemma iterencode_vote: "iterencode L canonical lvl (Vote_to_dict v) = vote_text L v"
  by (simp add: Vote_to_dict_def canonical_def newline_indent_def vote_text_def iterencode_number)

lemma block_string_flat:
  "block_string L b =
     ''{'' @ encode_basestring_ascii (py ''index'') @ '':'' @ int_repr (index b)
     @ '','' @ encode_basestring_ascii (py ''previous_hash'') @ '':''
     @ encode_basestring_ascii (previous_hash b)
     @ '','' @ encode_basestring_ascii (py ''timestamp'') @ '':'' @ num_text L (Block.timestamp b)
     @ '','' @ encode_basestring_ascii (py ''votes'') @ '':''
     @ (if votes b = [] then ''[]'' else ''['' @ join '','' (map (vote_text L) (votes b)) @ '']'')
     @ ''}''"
  by (simp add: block_string_def dumps_def block_data_def canonical_def newline_indent_def
      iterencode_number iterencode_vote[unfolded canonical_def] comp_def)

lemma split_at_first:
  "c \<notin> set xs \<Longrightarrow> c \<notin> set ys \<Longrightarrow> xs @ c # r = ys @ c # r' \<Longrightarrow> xs = ys \<and> r = r'"
proof (induction xs arbitrary: ys)
  case Nil
  then show ?case by (cases ys) auto
next
  case (Cons x xs)
  then show ?case by (cases ys) auto
qed

lemma comma_notin_num_text: "float_repr_ok L \<Longrightarrow> CHR '','' \<notin> set (num_text L t)"
  by (cases t) (simp_all add: num_text_def float_repr_ok_def comma_notin_int_repr)

lemma num_text_inj: "float_repr_ok L \<Longrightarrow> num_text L t = num_text L t' \<Longrightarrow> t = t'"
proof (cases t; cases t')
  fix i j assume "t = NInt i" "t' = NInt j" "num_text L t = num_text L t'"
  then show "t = t'" using int_repr_inj[of i j] by (simp add: num_text_def)
next
  fix i r assume "float_repr_ok L" "t = NInt i" "t' = NFloat r" "num_text L t = num_text L t'"
  then show "t = t'" by (simp add: num_text_def float_repr_ok_def) metis
next
  fix i r assume "float_repr_ok L" "t = NFloat r" "t' = NInt i" "num_text L t = num_text L t'"
  then show "t = t'" by (simp add: num_text_def float_repr_ok_def)
next
  fix r s assume "float_repr_ok L" "t = NFloat r" "t' = NFloat s" "num_text L t = num_text L t'"
  then show "t = t'" by (simp add: num_text_def float_repr_ok_def inj_eq)
qed

lemma num_text_prefix:
  assumes "float_repr_ok L" "num_text L t @ CHR '','' # r = num_text L t' @ CHR '','' # r'"
  shows "t = t' \<and> r = r'"
proof -
  have "num_text L t = num_text L t' \<and> r = r'"
    using assms(2) comma_notin_num_text[OF assms(1)] by (intro split_at_first) auto
  then show ?thesis using num_text_inj[OF assms(1)] by blast
qed

lemma int_repr_prefix:
  assumes "int_repr i @ CHR '','' # r = int_repr j @ CHR '','' # r'"
  shows "i = j \<and> r = r'"
proof -
  have "int_repr i = int_repr j \<and> r = r'"
    using assms comma_notin_int_repr by (intro split_at_first) auto
  then show ?thesis using int_repr_inj by blast
qed

lemma vote_text_prefix:
  assumes L: "float_repr_ok L" and v: "Vote_wf v" and v': "Vote_wf v'"
    and e: "vote_text L v @ r = vote_text L v' @ r'"
  shows "v = v' \<and> r = r'"
proof -
  let ?R = "\<lambda>v r. '','' @ encode_basestring_ascii (py ''timestamp'') @ '':'' @ num_text L (Vote.timestamp v)
     @ '','' @ encode_basestring_ascii (py ''voter_id'') @ '':'' @ encode_basestring_ascii (voter_id v)
     @ ''}'' @ r"
  have "encode_basestring_ascii (candidate v) @ ?R v r
        = encode_basestring_ascii (candidate v') @ ?R v' r'"
    using e by (simp add: vote_text_def)
  then have c: "candidate v = candidate v'" and 1: "?R v r = ?R v' r'"
    using encode_basestring_prefix[of "candidate v" "candidate v'" "?R v r" "?R v' r'"] v v'
    by (simp_all add: Vote_wf_def)
  let ?S = "\<lambda>v r. encode_basestring_ascii (py ''voter_id'') @ '':'' @ encode_basestring_ascii (voter_id v)
     @ ''}'' @ r"
  have "num_text L (Vote.timestamp v) @ CHR '','' # ?S v r
        = num_text L (Vote.timestamp v') @ CHR '','' # ?S v' r'"
    using 1 by simp
  then have t: "Vote.timestamp v = Vote.timestamp v'" and 2: "?S v r = ?S v' r'"
    using num_text_prefix[OF L] by blast+
  have "encode_basestring_ascii (voter_id v) @ (''}'' @ r)
        = encode_basestring_ascii (voter_id v') @ (''}'' @ r')"
    using 2 by simp
  then have i: "voter_id v = voter_id v'" and 3: "r = r'"
    using encode_basestring_prefix[of "voter_id v" "voter_id v'" "''}'' @ r" "''}'' @ r'"] v v'
    by (simp_all add: Vote_wf_def)
  show ?thesis using c t i 3 by simp
qed

lemma vote_text_hd: "\<exists>t. vote_text L v = CHR ''{'' # t"
  by (simp add: vote_text_def)

lemma join_votes_prefix:
  assumes L: "float_repr_ok L"
  shows "vs \<noteq> [] \<Longrightarrow> vs' \<noteq> [] \<Longrightarrow> list_all Vote_wf vs \<Longrightarrow> list_all Vote_wf vs' \<Longrightarrow>
         join '','' (map (vote_text L) vs) @ CHR '']'' # r
           = join '','' (map (vote_text L) vs') @ CHR '']'' # r' \<Longrightarrow>
         vs = vs' \<and> r = r'"
proof (induction vs arbitrary: vs')
  case Nil
  then show ?case by simp
next
  case (Cons v ws)
  obtain v' ws' where vs': "vs' = v' # ws'" using Cons.prems(2) by (cases vs') auto
  have wf: "Vote_wf v" "Vote_wf v'" "list_all Vote_wf ws" "list_all Vote_wf ws'"
    using Cons.prems(3,4) vs' by simp_all
  let ?T = "\<lambda>ws r. (if ws = [] then CHR '']'' # r
                    else '','' @ join '','' (map (vote_text L) ws) @ CHR '']'' # r)"
  have form: "join '','' (map (vote_text L) (u # us)) @ CHR '']'' # q = vote_text L u @ ?T us q"
    for u us q
    by (cases us) simp_all
  have "vote_text L v @ ?T ws r = vote_text L v' @ ?T ws' r'"
    using Cons.prems(5) vs' form by simp
  then have v: "v = v'" and T: "?T ws r = ?T ws' r'"
    using vote_text_prefix[OF L wf(1,2)] by blast+
  show ?case
  proof (cases "ws = []")
    case True
    then have "ws' = []" using T by (auto split: if_splits)
    then show ?thesis using True T v vs' by simp
  next
    case False
    then have ne: "ws' \<noteq> []" using T by (auto split: if_splits)
    then have "join '','' (map (vote_text L) ws) @ CHR '']'' # r
               = join '','' (map (vote_text L) ws') @ CHR '']'' # r'"
      using T False by simp
    then show ?thesis using Cons.IH[OF False ne wf(3,4)] v vs' by simp
  qed
qed

lemma block_string_inj:
  assumes L: "float_repr_ok L" and b: "Block_wf b" and b': "Block_wf b'"
    and e: "block_string L b = block_string L b'"
  shows "index b = index b' \<and> Block.timestamp b = Block.timestamp b'
         \<and> votes b = votes b' \<and> previous_hash b = previous_hash b'"
proof -
  let ?V = "\<lambda>b. (if votes b = [] then ''[]'' else ''['' @ join '','' (map (vote_text L) (votes b)) @ '']'') @ ''}''"
  let ?T = "\<lambda>b. encode_basestring_ascii (py ''votes'') @ '':'' @ ?V b"
  let ?P = "\<lambda>b. '','' @ encode_basestring_ascii (py ''timestamp'') @ '':'' @ num_text L (Block.timestamp b)
              @ '','' @ ?T b"
  let ?I = "\<lambda>b. encode_basestring_ascii (py ''previous_hash'') @ '':''
              @ encode_basestring_ascii (previous_hash b) @ ?P b"
  have "int_repr (index b) @ CHR '','' # ?I b = int_repr (index b') @ CHR '','' # ?I b'"
    using e by (simp add: block_string_flat)
  then have i: "index b = index b'" and 1: "?I b = ?I b'"
    using int_repr_prefix by blast+
  have "encode_basestring_ascii (previous_hash b) @ ?P b
        = encode_basestring_ascii (previous_hash b') @ ?P b'"
    using 1 by simp
  then have p: "previous_hash b = previous_hash b'" and 2: "?P b = ?P b'"
    using encode_basestring_prefix[of "previous_hash b" "previous_hash b'" "?P b" "?P b'"] b b'
    by (simp_all add: Block_wf_def)
  have "num_text L (Block.timestamp b) @ CHR '','' # ?T b
        = num_text L (Block.timestamp b') @ CHR '','' # ?T b'"
    using 2 by simp
  then have t: "Block.timestamp b = Block.timestamp b'" and 3: "?T b = ?T b'"
    using num_text_prefix[OF L] by blast+
  have 4: "?V b = ?V b'" using 3 by simp
  have v: "votes b = votes b'"
  proof (cases "votes b = []")
    case True
    show ?thesis
    proof (cases "votes b' = []")
      case True
      then show ?thesis using \<open>votes b = []\<close> by simp
    next
      case False
      then obtain u us where "votes b' = u # us" by (cases "votes b'") auto
      moreover obtain w where "vote_text L u = CHR ''{'' # w" using vote_text_hd by blast
      ultimately show ?thesis using 4 True by (cases us) simp_all
    qed
  next
    case False
    show ?thesis
    proof (cases "votes b' = []")
      case True
      obtain u us where "votes b = u # us" using False by (cases "votes b") auto
      moreover obtain w where "vote_text L u = CHR ''{'' # w" using vote_text_hd by blast
      ultimately show ?thesis using 4 True by (cases us) simp_all
    next
      case ne: False
      have "join '','' (map (vote_text L) (votes b)) @ CHR '']'' # ''}''
            = join '','' (map (vote_text L) (votes b')) @ CHR '']'' # ''}''"
        using 4 False ne by simp
      then show ?thesis
        using join_votes_prefix[OF L False ne] b b' by (simp add: Block_wf_def)
    qed
  qed
  show ?thesis using i t v p by simp
qed

lemma slash_notin_int_repr: "CHR ''/'' \<notin> set (int_repr i)"
proof -
  have "CHR ''/'' \<notin> set (decimal n)" for n using set_decimal[of n] by auto
  then show ?thesis by (simp add: int_repr_def)
qed

lemma ratio_repr_inj: "ratio_repr r = ratio_repr s \<Longrightarrow> r = s"
proof -
  assume "ratio_repr r = ratio_repr s"
  then have "int_repr (fst (quotient_of r)) = int_repr (fst (quotient_of s))
             \<and> int_repr (snd (quotient_of r)) = int_repr (snd (quotient_of s))"
    unfolding ratio_repr_def using slash_notin_int_repr by (intro split_at_first) auto
  then have "quotient_of r = quotient_of s"
    using int_repr_inj by (simp add: prod_eq_iff)
  then show ?thesis by (simp add: quotient_of_inject)
qed

lemma L1_ok: "float_repr_ok L1"
  unfolding float_repr_ok_def
proof (intro conjI allI)
  show "inj (float_repr L1)" using ratio_repr_inj by (auto simp: L1_def intro: injI)
  show "CHR '','' \<notin> set (float_repr L1 r)" for r
    by (simp add: L1_def ratio_repr_def comma_notin_int_repr)
  show "float_repr L1 r \<noteq> int_repr i" for r i
  proof
    assume "float_repr L1 r = int_repr i"
    then have "CHR ''/'' \<in> set (int_repr i)" by (simp add: L1_def ratio_repr_def flip: set_append) (metis in_set_conv_decomp)
    then show False using slash_notin_int_repr by simp
  qed
qed

lemma calculate_hash_eq_iff:
  "calculate_hash L a = calculate_hash L b
     \<longleftrightarrow> sha256 L (block_string L a) = sha256 L (block_string L b)"
  using py_inj hexdigest_inj by (auto simp: calculate_hash_def)

lemma calculate_hash_hex:
  "\<exists>t. calculate_hash L a = py t \<and> length t = 64 \<and> set t \<subseteq> set ''0123456789abcdef''"
  unfolding calculate_hash_def hexdigest_def
  using set_hex_fixed[of 64] length_hex_fixed[of 64] by blast

text \<open>
  What holds of the digest. It reads only index, timestamp, votes and
  \<open>previous_hash\<close>, so equal contents give equal digests, whatever hash is stored. It
  is a text of 64 characters, each a lowercase hexadecimal digit. Two digests are
  equal exactly when SHA-256 gives the same value on the two canonical texts. And
  when the float texts are injective and no string of the two blocks (voter ids,
  candidates, \<open>previous_hash\<close>) has a surrogate code point, any difference in index,
  timestamp, votes (any field of any vote, their number or their order) or
  \<open>previous_hash\<close> gives different canonical texts. The program itself puts no such
  condition on its strings.
\<close>

theorem block_digest_properties:
  "(index a = index b \<and> Block.timestamp a = Block.timestamp b \<and> votes a = votes b
      \<and> previous_hash a = previous_hash b \<longrightarrow> calculate_hash L a = calculate_hash L b)
   \<and> (\<exists>t. calculate_hash L a = py t \<and> length t = 64 \<and> set t \<subseteq> set ''0123456789abcdef'')
   \<and> (calculate_hash L a = calculate_hash L b
        \<longleftrightarrow> sha256 L (block_string L a) = sha256 L (block_string L b))
   \<and> (float_repr_ok L \<and> Block_wf a \<and> Block_wf b
        \<and> \<not> (index a = index b \<and> Block.timestamp a = Block.timestamp b \<and> votes a = votes b
              \<and> previous_hash a = previous_hash b)
        \<longrightarrow> block_string L a \<noteq> block_string L b)"
proof (intro conjI)
  show "index a = index b \<and> Block.timestamp a = Block.timestamp b \<and> votes a = votes b
      \<and> previous_hash a = previous_hash b \<longrightarrow> calculate_hash L a = calculate_hash L b"
    using calculate_hash_content[of a b L] by blast
  show "\<exists>t. calculate_hash L a = py t \<and> length t = 64 \<and> set t \<subseteq> set ''0123456789abcdef''"
    by (rule calculate_hash_hex)
  show "calculate_hash L a = calculate_hash L b
        \<longleftrightarrow> sha256 L (block_string L a) = sha256 L (block_string L b)"
    by (rule calculate_hash_eq_iff)
  show "float_repr_ok L \<and> Block_wf a \<and> Block_wf b
        \<and> \<not> (index a = index b \<and> Block.timestamp a = Block.timestamp b \<and> votes a = votes b
              \<and> previous_hash a = previous_hash b)
        \<longrightarrow> block_string L a \<noteq> block_string L b"
    using block_string_inj[of L a b] by blast
qed


text \<open>
  These properties at work, with the library \<open>L1\<close>: a block and the same block with
  index \<open>10\<close> have different canonical texts, and here different digests too.
\<close>

theorem block_digest_properties_witness:
  "float_repr_ok L1 \<and> Block_wf block_one \<and> Block_wf (block_one\<lparr>index := 10\<rparr>)
   \<and> index block_one \<noteq> index (block_one\<lparr>index := 10\<rparr>)
   \<and> block_string L1 block_one \<noteq> block_string L1 (block_one\<lparr>index := 10\<rparr>)
   \<and> calculate_hash L1 block_one \<noteq> calculate_hash L1 (block_one\<lparr>index := 10\<rparr>)
   \<and> calculate_hash L1 (block_one\<lparr>hash := PStr (py ''x'')\<rparr>) = calculate_hash L1 block_one
   \<and> length (calculate_hash L1 block_one) = 64"
proof -
  have sc: "scalar c" if "c < 0xD800" for c using that by (simp add: scalar_def)
  have wf: "Block_wf block_one" "Block_wf (block_one\<lparr>index := 10\<rparr>)"
    by (simp_all add: Block_wf_def Vote_wf_def well_formed_def block_one_def vote_alice_def sc)
  have ne: "index block_one \<noteq> index (block_one\<lparr>index := 10\<rparr>)"
    by (simp add: block_one_def)
  have d1: "decimal (Suc 0) = ''1''"
    by (subst decimal.simps) (simp add: digit_char_def)
  have d10: "decimal 10 = ''10''"
    by (subst decimal.simps) (simp add: d1 digit_char_def)
  note d = d1 d10
  have "length (block_string L1 (block_one\<lparr>index := 10\<rparr>)) = Suc (length (block_string L1 block_one))"
    by (simp add: block_string_flat block_one_def int_repr_def d)
  then have "sha256 L1 (block_string L1 (block_one\<lparr>index := 10\<rparr>))
             = sha256 L1 (block_string L1 block_one) + 1"
    by (simp add: L1_def)
  then have s: "sha256 L1 (block_string L1 block_one)
                \<noteq> sha256 L1 (block_string L1 (block_one\<lparr>index := 10\<rparr>))"
    by simp
  show ?thesis
    using L1_ok wf ne s
      block_digest_properties[of block_one "block_one\<lparr>index := 10\<rparr>" L1]
      block_digest_properties[of "block_one\<lparr>hash := PStr (py ''x'')\<rparr>" block_one L1]
    by auto
qed

end
